theory Spec2Isabelle
  imports Complex_Main
begin

section \<open>Python values, exceptions and loops\<close>

text \<open>
  The development embeds the tokenisation and windowing code of
  \<^verbatim>\<open>src/levanter/data/text.py\<close>. Python exceptions are values: a function that
  can raise returns \<open>py_error + 'a\<close>, with \<open>Inl\<close> the exception. Python's
  unbounded integers are \<open>int\<close>. A \<open>str\<close> is a \<open>string\<close>; a character stands
  for a code point below 256.
\<close>

datatype py_error =
  IndexError | ValueError | AssertionError | KeyError | AttributeError | ZeroDivisionError
  | TypeError

text \<open>A \<^verbatim>\<open>for x in xs:\<close> loop whose body can raise: the first exception ends the loop.\<close>

fun for_each :: "('a \<Rightarrow> 's \<Rightarrow> py_error + 's) \<Rightarrow> 'a list \<Rightarrow> 's \<Rightarrow> py_error + 's" where
  "for_each f [] s = Inr s"
| "for_each f (x # xs) s = (case f x s of Inl e \<Rightarrow> Inl e | Inr s' \<Rightarrow> for_each f xs s')"

section \<open>Strings\<close>

text \<open>
  \<^verbatim>\<open>str.split()\<close> and the pattern \<^verbatim>\<open>\s\<close> share one notion of whitespace
  (\<^verbatim>\<open>str.isspace\<close>); below code point 256 it is TAB, LF, VT, FF, CR, FS, GS, RS, US,
  SPACE, NEL and NBSP.
\<close>

definition is_space :: "char \<Rightarrow> bool" where
  "is_space c \<longleftrightarrow> c \<in> {CHR 0x09, CHR 0x0A, CHR 0x0B, CHR 0x0C, CHR 0x0D, CHR 0x1C, CHR 0x1D,
     CHR 0x1E, CHR 0x1F, CHR 0x20, CHR 0x85, CHR 0xA0}"

text \<open>The characters of \<^verbatim>\<open>".!?"\<close>.\<close>

definition is_terminator :: "char \<Rightarrow> bool" where
  "is_terminator c \<longleftrightarrow> c \<in> {CHR ''.'', CHR ''!'', CHR ''?''}"

text \<open>
  \<^verbatim>\<open>s.split()\<close>: the maximal runs of non-whitespace characters, in order. The first
  argument is the run read so far, reversed.
\<close>

fun split_acc :: "string \<Rightarrow> string \<Rightarrow> string list" where
  "split_acc w [] = (if w = [] then [] else [rev w])"
| "split_acc w (c # cs) =
     (if is_space c then (if w = [] then split_acc [] cs else rev w # split_acc [] cs)
      else split_acc (c # w) cs)"

definition py_split :: "string \<Rightarrow> string list" where
  "py_split s = split_acc [] s"

text \<open>
  \<^verbatim>\<open>s.replace(old, new)\<close> for a two-character \<open>old = [a, b]\<close> and
  \<open>new = [c, d]\<close>: occurrences are replaced from the left and do not overlap.
\<close>

fun py_replace2 :: "char \<Rightarrow> char \<Rightarrow> char \<Rightarrow> char \<Rightarrow> string \<Rightarrow> string" where
  "py_replace2 a b c d (x # y # r) =
     (if x = a \<and> y = b then c # d # py_replace2 a b c d r
      else x # py_replace2 a b c d (y # r))"
| "py_replace2 a b c d s = s"

text \<open>The six replacements at the head of the loop of \<^verbatim>\<open>BatchTokenizer.__call__\<close>.\<close>

definition normalize_quotes :: "string \<Rightarrow> string" where
  "normalize_quotes d0 =
     (let d = py_replace2 (CHR ''.'') (CHR 0x22) (CHR 0x22) (CHR ''.'') d0;
          d = py_replace2 (CHR ''.'') (CHR 0x27) (CHR 0x27) (CHR ''.'') d;
          d = py_replace2 (CHR ''?'') (CHR 0x22) (CHR 0x22) (CHR ''?'') d;
          d = py_replace2 (CHR ''!'') (CHR 0x22) (CHR 0x22) (CHR ''!'') d;
          d = py_replace2 (CHR ''?'') (CHR 0x27) (CHR 0x27) (CHR ''?'') d;
          d = py_replace2 (CHR ''!'') (CHR 0x27) (CHR 0x27) (CHR ''!'') d
      in d)"

text \<open>
  \<^verbatim>\<open>s.split()[-1][-1] not in ".!?"\<close>: \<^verbatim>\<open>IndexError\<close> when \<open>s\<close> has no word.
  Every word of \<open>py_split\<close> is non-empty, so the inner index cannot fail.
\<close>

definition last_word_unterminated :: "string \<Rightarrow> py_error + bool" where
  "last_word_unterminated s =
     (case py_split s of
        [] \<Rightarrow> Inl IndexError
      | w # ws \<Rightarrow> Inr (\<not> is_terminator (last (last (w # ws)))))"

text \<open>
  The condition of the \<^verbatim>\<open>continue\<close>:
  \<^verbatim>\<open>(d[-1] == "\n" and d[:-1].split()[-1][-1] not in ".!?") or (d.split()[-1][-1] not in ".!?")\<close>,
  with the short-circuit order of \<^verbatim>\<open>and\<close> and \<^verbatim>\<open>or\<close>.
\<close>

definition should_skip :: "string \<Rightarrow> py_error + bool" where
  "should_skip d =
     (if d = [] then Inl IndexError
      else
        (case (if last d = CHR 0x0A then last_word_unterminated (butlast d) else Inr False) of
           Inl e \<Rightarrow> Inl e
         | Inr True \<Rightarrow> Inr True
         | Inr False \<Rightarrow> last_word_unterminated d))"

text \<open>
  \<^verbatim>\<open>re.split(r'(?<=[.!?])\s+', d)\<close>. A match starts at a whitespace character that
  follows a terminator and takes the whole run of whitespace; the search goes on after
  it. The first argument is the piece read so far, reversed: its head is the character
  before the current position, and it is empty at the start of the string and right
  after a match (where the character before is whitespace, so not a terminator).
\<close>

function re_split_acc :: "string \<Rightarrow> string \<Rightarrow> string list" where
  "re_split_acc acc [] = [rev acc]"
| "re_split_acc acc (c # cs) =
     (if is_space c \<and> acc \<noteq> [] \<and> is_terminator (hd acc)
      then rev acc # re_split_acc [] (dropWhile is_space cs)
      else re_split_acc (c # acc) cs)"
  by pat_completeness auto
termination
  by (relation "measure (\<lambda>(acc, s). length s)") (auto simp: length_dropWhile_le le_imp_less_Suc)

definition re_split_sentences :: "string \<Rightarrow> string list" where
  "re_split_sentences d = re_split_acc [] d"

text \<open>
  The loop that builds \<^verbatim>\<open>sentences\<close>: empty pieces are left out, and a piece that does
  not start with a space character gets one in front.
\<close>

fun collect_sentences :: "string list \<Rightarrow> string list" where
  "collect_sentences [] = []"
| "collect_sentences (s # ss) =
     (if length s > 0
      then (if take 1 s = '' '' then s else '' '' @ s) # collect_sentences ss
      else collect_sentences ss)"

section \<open>The tokenizer and the encodings\<close>

text \<open>
  A field of a \<^verbatim>\<open>BatchEncoding\<close> is a sequence with one entry per input string. The
  merge looks at the type of the first entry only: a Python list, a numpy array, or
  anything else (of which only the length matters).
\<close>

datatype field_value = Lists "int list list" | Arrays "int list list" | Other nat

type_synonym encoding = "(string \<times> field_value) list"

fun field_len :: "field_value \<Rightarrow> nat" where
  "field_len (Lists v) = length v"
| "field_len (Arrays v) = length v"
| "field_len (Other n) = n"

text \<open>A field whose value is a non-empty sequence of numpy arrays.\<close>

fun nonempty_array :: "field_value \<Rightarrow> bool" where
  "nonempty_array (Arrays a) = (a \<noteq> [])"
| "nonempty_array v = False"

text \<open>
  The tokenizer is a parameter: \<open>encode_batch\<close> is the call on a list of strings
  (\<^verbatim>\<open>tokenizer(batch, return_attention_mask=False, verbose=False)\<close>) and \<open>encode_ids\<close>
  the \<^verbatim>\<open>input_ids\<close> of the call on one string.
\<close>

record tokenizer =
  encode_batch :: "string list \<Rightarrow> encoding"
  encode_ids :: "string \<Rightarrow> int list"
  eos_token :: string
  eos_token_id :: int

record batch_tokenizer =
  bt_tokenizer :: tokenizer
  need_to_add_eos :: bool
  bt_eos_token_id :: int
  max_sentence_len :: int


section \<open>Merging the sentence fragments of a record\<close>

text \<open>
  One pass of the loop body of the list branch of \<^verbatim>\<open>_merge_split_encodings\<close>, at
  index \<open>i\<close>, on the state \<open>(v_out, vs_to_merge)\<close>. Reading a list out of range
  raises \<^verbatim>\<open>IndexError\<close>; \<^verbatim>\<open>v[i][0]\<close> is read only when \<^verbatim>\<open>wc[i] < max_sentence_len\<close>.
  The assignment to \<^verbatim>\<open>v[i]\<close> changes the entry that this pass alone reads.
\<close>

definition merge_list_step ::
  "bool list \<Rightarrow> int list \<Rightarrow> int \<Rightarrow> int \<Rightarrow> int list list \<Rightarrow> nat
     \<Rightarrow> int list list \<times> int list list \<Rightarrow> py_error + (int list list \<times> int list list)" where
  "merge_list_step needs_merge wc eos_id max_len v i st =
     (case st of (v_out, vs_to_merge) \<Rightarrow>
        if i \<ge> length needs_merge then Inl IndexError
        else
          let (v_out, vs_to_merge) =
                (if \<not> needs_merge ! i
                 then ((if length vs_to_merge > 0 then v_out @ [concat vs_to_merge] else v_out), [])
                 else (v_out, vs_to_merge))
          in
            if i \<ge> length wc then Inl IndexError
            else
              let sentence_len = wc ! i + eos_id + 1 in
                if wc ! i < max_len
                then
                  (if i \<ge> length v then Inl IndexError
                   else if v ! i = [] then Inl IndexError
                   else if hd (v ! i) \<noteq> eos_id
                        then Inr (v_out, vs_to_merge @ [[sentence_len] @ v ! i])
                        else Inr (v_out, vs_to_merge @ [v ! i]))
                else
                  (if i \<ge> length v then Inl IndexError
                   else Inr (v_out, vs_to_merge @ [v ! i])))"

definition merge_lists ::
  "nat \<Rightarrow> bool list \<Rightarrow> int list \<Rightarrow> int \<Rightarrow> int \<Rightarrow> int list list \<Rightarrow> py_error + int list list" where
  "merge_lists n needs_merge wc eos_id max_len v =
     (case for_each (merge_list_step needs_merge wc eos_id max_len v) [0..<n] ([], []) of
        Inl e \<Rightarrow> Inl e
      | Inr (v_out, vs_to_merge) \<Rightarrow>
          Inr (if length vs_to_merge > 0 then v_out @ [concat vs_to_merge] else v_out))"

text \<open>
  The array branch. \<^verbatim>\<open>np.concatenate\<close> of an empty list raises \<^verbatim>\<open>ValueError\<close>, and
  \<^verbatim>\<open>[sentence_len] + v[i]\<close> on an array is numpy's broadcast addition: it adds
  \<open>sentence_len\<close> to every entry and prepends nothing. Entries are taken as unbounded
  integers.
\<close>

definition merge_array_step ::
  "bool list \<Rightarrow> int list \<Rightarrow> int \<Rightarrow> int \<Rightarrow> int list list \<Rightarrow> nat
     \<Rightarrow> int list list \<times> int list list \<Rightarrow> py_error + (int list list \<times> int list list)" where
  "merge_array_step needs_merge wc eos_id max_len v i st =
     (case st of (v_out, vs_to_merge) \<Rightarrow>
        if i \<ge> length needs_merge then Inl IndexError
        else if \<not> needs_merge ! i \<and> vs_to_merge = [] then Inl ValueError
        else
          let (v_out, vs_to_merge) =
                (if \<not> needs_merge ! i then (v_out @ [concat vs_to_merge], [])
                 else (v_out, vs_to_merge))
          in
            if i \<ge> length wc then Inl IndexError
            else
              let sentence_len = wc ! i + eos_id + 1 in
                if wc ! i < max_len
                then
                  (if i \<ge> length v then Inl IndexError
                   else if v ! i = [] then Inl IndexError
                   else if hd (v ! i) \<noteq> eos_id
                        then Inr (v_out, vs_to_merge @ [map (\<lambda>x. sentence_len + x) (v ! i)])
                        else Inr (v_out, vs_to_merge @ [v ! i]))
                else
                  (if i \<ge> length v then Inl IndexError
                   else Inr (v_out, vs_to_merge @ [v ! i])))"

definition merge_arrays ::
  "nat \<Rightarrow> bool list \<Rightarrow> int list \<Rightarrow> int \<Rightarrow> int \<Rightarrow> int list list \<Rightarrow> py_error + int list list" where
  "merge_arrays n needs_merge wc eos_id max_len v =
     (if length v \<noteq> n then Inl AssertionError
      else
        (case for_each (merge_array_step needs_merge wc eos_id max_len v) [0..<n] ([], []) of
           Inl e \<Rightarrow> Inl e
         | Inr (v_out, vs_to_merge) \<Rightarrow>
             Inr (if length vs_to_merge > 0 then v_out @ [concat vs_to_merge] else v_out)))"

text \<open>
  \<^verbatim>\<open>_merge_split_encodings\<close>: the loop over the fields, in the order of the dictionary.
  A field of length 0 is left out of the result; a field whose first entry is neither
  a list nor an array raises \<^verbatim>\<open>ValueError\<close>. The first argument is \<^verbatim>\<open>len(batch)\<close>, the
  only use the function makes of \<^verbatim>\<open>batch\<close>.
\<close>

fun merge_split_encodings ::
  "nat \<Rightarrow> encoding \<Rightarrow> bool list \<Rightarrow> int list \<Rightarrow> int \<Rightarrow> int \<Rightarrow> py_error + encoding" where
  "merge_split_encodings n [] needs_merge wc eos_id max_len = Inr []"
| "merge_split_encodings n ((k, v) # rest) needs_merge wc eos_id max_len =
     (if field_len v = 0 then merge_split_encodings n rest needs_merge wc eos_id max_len
      else
        (case (case v of
                 Arrays a \<Rightarrow> map_sum id Arrays (merge_arrays n needs_merge wc eos_id max_len a)
               | Lists l \<Rightarrow> map_sum id Lists (merge_lists n needs_merge wc eos_id max_len l)
               | Other m \<Rightarrow> Inl ValueError) of
           Inl e \<Rightarrow> Inl e
         | Inr v_out \<Rightarrow>
             (case merge_split_encodings n rest needs_merge wc eos_id max_len of
                Inl e \<Rightarrow> Inl e
              | Inr new_encoding \<Rightarrow> Inr ((k, v_out) # new_encoding))))"

section \<open>\<^verbatim>\<open>BatchTokenizer.__call__\<close>\<close>

text \<open>
  The body of the loop over \<^verbatim>\<open>orig_batch\<close>, on the state
  \<open>(batch, needs_merge, wc)\<close>. The long-sequence workaround only prints and is left
  out.
\<close>

definition call_step ::
  "batch_tokenizer \<Rightarrow> string \<Rightarrow> string list \<times> bool list \<times> int list
     \<Rightarrow> py_error + (string list \<times> bool list \<times> int list)" where
  "call_step bt d0 st =
     (case st of (batch, needs_merge, wc) \<Rightarrow>
        let d = normalize_quotes d0 in
          (case should_skip d of
             Inl e \<Rightarrow> Inl e
           | Inr True \<Rightarrow> Inr (batch, needs_merge, wc)
           | Inr False \<Rightarrow>
               let sentences = collect_sentences (re_split_sentences d);
                   word_counts = map (\<lambda>s. int (length (py_split s))) sentences
               in
                 if sentences \<noteq> []
                 then
                   (let batch = batch @ sentences;
                        wc = wc @ word_counts;
                        needs_merge = needs_merge @ [False] @ replicate (length sentences - 1) True
                    in
                      if need_to_add_eos bt
                      then Inr (batch @ [eos_token (bt_tokenizer bt)], needs_merge @ [True], wc @ [1])
                      else Inr (batch, needs_merge, wc))
                 else Inr (batch, needs_merge, wc)))"

definition BatchTokenizer_call :: "batch_tokenizer \<Rightarrow> string list \<Rightarrow> py_error + encoding" where
  "BatchTokenizer_call bt orig_batch =
     (case for_each (call_step bt) orig_batch ([], [], []) of
        Inl e \<Rightarrow> Inl e
      | Inr (batch, needs_merge, wc) \<Rightarrow>
          let encoding = encode_batch (bt_tokenizer bt) batch in
            if needs_merge \<noteq> []
            then merge_split_encodings (length batch) encoding needs_merge wc
                   (bt_eos_token_id bt) (max_sentence_len bt)
            else Inr encoding)"

section \<open>A concrete tokenizer\<close>

text \<open>
  A small tokenizer on which the definitions can be run: a string is encoded as the
  code points of its characters, the end-of-sequence string as the one token 0. It
  returns one list-valued field and does not end its output with the end-of-sequence
  token.
\<close>

definition demo_encode :: "string \<Rightarrow> int list" where
  "demo_encode s = (if s = ''<eos>'' then [0] else map (\<lambda>c. int (of_char c)) s)"

definition demo_tokenizer :: tokenizer where
  "demo_tokenizer =
     \<lparr>encode_batch = (\<lambda>batch. [(''input_ids'', Lists (map demo_encode batch))]),
      encode_ids = demo_encode, eos_token = ''<eos>'', eos_token_id = 0\<rparr>"

definition demo_bt :: batch_tokenizer where
  "demo_bt = \<lparr>bt_tokenizer = demo_tokenizer, need_to_add_eos = True,
              bt_eos_token_id = 0, max_sentence_len = 1024\<rparr>"

section \<open>Grouping a token stream into windows\<close>

text \<open>
  A document is a \<^verbatim>\<open>BatchEncoding\<close> whose fields are sequences of token sequences; a
  window is one whose fields are flat arrays. Both are association lists in the order
  of the dictionary.
\<close>

type_synonym doc = "(string \<times> int list list) list"

type_synonym window = "(string \<times> int list) list"

text \<open>
  \<^verbatim>\<open>xs[a:b]\<close>: a negative bound counts from the end, and both bounds are clipped to
  the sequence.
\<close>

definition py_slice :: "'a list \<Rightarrow> int \<Rightarrow> int \<Rightarrow> 'a list" where
  "py_slice xs a b =
     (let n = int (length xs);
          lo = (if a < 0 then max (a + n) 0 else min a n);
          hi = (if b < 0 then max (b + n) 0 else min b n)
      in take (nat (hi - lo)) (drop (nat lo) xs))"

text \<open>
  \<^verbatim>\<open>range(start, stop, step)\<close> for a step other than 0 (the caller raises
  \<^verbatim>\<open>ValueError\<close> for 0): the length is the one CPython computes.
\<close>

definition py_range :: "int \<Rightarrow> int \<Rightarrow> int \<Rightarrow> int list" where
  "py_range start stop step =
     (if step > 0
      then map (\<lambda>k. start + int k * step) [0..<nat ((stop - start + step - 1) div step)]
      else map (\<lambda>k. start + int k * step) [0..<nat ((start - stop - step - 1) div (- step))])"

text \<open>\<^verbatim>\<open>d[k] = v\<close> on a dictionary: a known key keeps its place, a new key goes last.\<close>

fun dict_set :: "('k \<times> 'v) list \<Rightarrow> 'k \<Rightarrow> 'v \<Rightarrow> ('k \<times> 'v) list" where
  "dict_set [] k v = [(k, v)]"
| "dict_set ((k', v') # r) k v = (if k' = k then (k, v) # r else (k', v') # dict_set r k v)"

text \<open>
  \<^verbatim>\<open>_mask_overlap\<close> works on a deep copy and returns it, so it is a function of its
  argument. On a Python list it writes the positions \<open>i < target_len - stride\<close> that
  exist; on an array it assigns to the slice \<^verbatim>\<open>labels[0 : target_len - stride]\<close>, whose
  upper bound counts from the end when it is negative.
\<close>

definition mask_overlap_list :: "int list \<Rightarrow> int \<Rightarrow> int \<Rightarrow> int \<Rightarrow> int list" where
  "mask_overlap_list labels target_len stride sentinel =
     (let k = min (nat (target_len - stride)) (length labels)
      in replicate k sentinel @ drop k labels)"

definition mask_overlap_array :: "int list \<Rightarrow> int \<Rightarrow> int \<Rightarrow> int \<Rightarrow> int list" where
  "mask_overlap_array labels target_len stride sentinel =
     (let n = int (length labels);
          b = target_len - stride;
          hi = (if b < 0 then max (b + n) 0 else min b n)
      in replicate (nat hi) sentinel @ drop (nat hi) labels)"

text \<open>
  The body of the loop of \<^verbatim>\<open>concatenate_and_group_texts\<close> at one \<open>begin\<close>. The fields
  of \<open>concatenated\<close> are numpy arrays, so the array form of the mask applies, with the
  default sentinel -100.
\<close>

definition window_at :: "window \<Rightarrow> int \<Rightarrow> int \<Rightarrow> bool \<Rightarrow> int \<Rightarrow> py_error + window" where
  "window_at concatenated seq_len stride mask_stride_overlap begin =
     (let data = map (\<lambda>(k, v). (k, py_slice v begin (begin + seq_len))) concatenated in
        if mask_stride_overlap \<and> stride \<noteq> seq_len
        then
          (case map_of data ''input_ids'' of
             None \<Rightarrow> Inl KeyError
           | Some ids \<Rightarrow>
               let labels = (case map_of data ''labels'' of Some l \<Rightarrow> l | None \<Rightarrow> ids);
                   labels = (if begin \<noteq> 0 then mask_overlap_array labels seq_len stride (- 100)
                             else labels)
               in Inr (dict_set data ''labels'' labels))
        else Inr data)"

text \<open>All the windows of a generator, or the exception that ends it.\<close>

fun collect :: "('a \<Rightarrow> py_error + 'b) \<Rightarrow> 'a list \<Rightarrow> py_error + 'b list" where
  "collect f [] = Inr []"
| "collect f (x # xs) =
     (case f x of
        Inl e \<Rightarrow> Inl e
      | Inr y \<Rightarrow> (case collect f xs of Inl e \<Rightarrow> Inl e | Inr ys \<Rightarrow> Inr (y # ys)))"

text \<open>
  \<^verbatim>\<open>concatenate_and_group_texts\<close>, as the list of the windows it yields. A missing
  \<^verbatim>\<open>input_ids\<close> raises \<^verbatim>\<open>AttributeError\<close>; \<^verbatim>\<open>stride or seq_len\<close> takes \<open>seq_len\<close> for
  \<^verbatim>\<open>None\<close> and for 0; a stride that is still 0 raises \<^verbatim>\<open>ZeroDivisionError\<close> at
  \<^verbatim>\<open>total_length % stride\<close> (read only when \<open>drop_remainder\<close> holds) or \<^verbatim>\<open>ValueError\<close>
  at \<^verbatim>\<open>range\<close>. \<^verbatim>\<open>%\<close> and \<^verbatim>\<open>//\<close> round down, as \<open>mod\<close> and \<open>div\<close> do on \<open>int\<close>.
\<close>

definition concatenate_and_group_texts ::
  "doc \<Rightarrow> int \<Rightarrow> int option \<Rightarrow> bool \<Rightarrow> bool \<Rightarrow> py_error + window list" where
  "concatenate_and_group_texts encoding seq_len stride_opt drop_remainder mask_stride_overlap =
     (let concatenated = map (\<lambda>(k, v). (k, concat v)) encoding in
        (case map_of concatenated ''input_ids'' of
           None \<Rightarrow> Inl AttributeError
         | Some ids \<Rightarrow>
             let total_length = int (length ids);
                 stride = (case stride_opt of
                             None \<Rightarrow> seq_len
                           | Some s \<Rightarrow> if s = 0 then seq_len else s)
             in
               if drop_remainder \<and> stride = 0 then Inl ZeroDivisionError
               else
                 let total_length =
                       (if drop_remainder \<and> total_length mod stride \<noteq> 0
                        then ((total_length - seq_len + stride) div stride) * stride
                        else total_length)
                 in
                   if stride = 0 then Inl ValueError
                   else collect (window_at concatenated seq_len stride mask_stride_overlap)
                          (py_range 0 (total_length - seq_len + stride) stride)))"

section \<open>\<^verbatim>\<open>TokenSeqDataset\<close>\<close>

text \<open>
  \<^verbatim>\<open>_stack_batch_encodings(a, b)\<close> with \<open>a\<close> a window (the carried slice, whose fields
  are flat arrays: \<^verbatim>\<open>_ensure_batched\<close> wraps a non-empty one in a list and turns an
  empty one into the empty list) and \<open>b\<close> a document (whose fields are already
  batched). The keys are those of \<open>a\<close>; one that \<open>b\<close> lacks raises \<^verbatim>\<open>KeyError\<close>.
\<close>

fun stack_batch_encodings :: "window \<Rightarrow> doc \<Rightarrow> py_error + doc" where
  "stack_batch_encodings [] b = Inr []"
| "stack_batch_encodings ((k, x) # a) b =
     (case map_of b k of
        None \<Rightarrow> Inl KeyError
      | Some y \<Rightarrow>
          (case stack_batch_encodings a b of
             Inl e \<Rightarrow> Inl e
           | Inr r \<Rightarrow> Inr ((k, (if length x = 0 then [] else [x]) @ y) # r)))"

text \<open>
  The inner loop of \<^verbatim>\<open>TokenSeqDataset.__iter__\<close> over the slices of one document, from
  the state \<open>extra_tokens\<close>: the arrays it yields, and the new \<open>extra_tokens\<close> or the
  exception that ends the iteration.
\<close>

fun slices_loop ::
  "int \<Rightarrow> window list \<Rightarrow> window option \<Rightarrow> int list list \<times> (py_error + window option)" where
  "slices_loop seq_len [] extra_tokens = ([], Inr extra_tokens)"
| "slices_loop seq_len (encoded_slice # rest) extra_tokens =
     (case map_of encoded_slice ''input_ids'' of
        None \<Rightarrow> ([], Inl KeyError)
      | Some ids \<Rightarrow>
          if int (length ids) < seq_len
          then (if extra_tokens \<noteq> None then ([], Inl AssertionError)
                else slices_loop seq_len rest (Some encoded_slice))
          else (case slices_loop seq_len rest None of (ys, r) \<Rightarrow> (ids # ys, r)))"

text \<open>
  The outer loop over the documents of the cache: the arrays yielded, and the exception
  that ended the iteration, if one did.
\<close>

fun docs_loop ::
  "int \<Rightarrow> int option \<Rightarrow> doc list \<Rightarrow> window option \<Rightarrow> int list list \<times> py_error option" where
  "docs_loop seq_len stride [] extra_tokens = ([], None)"
| "docs_loop seq_len stride (doc # docs) extra_tokens =
     (case (case extra_tokens of
              None \<Rightarrow> Inr doc
            | Some a \<Rightarrow> stack_batch_encodings a doc) of
        Inl e \<Rightarrow> ([], Some e)
      | Inr doc' \<Rightarrow>
          (case concatenate_and_group_texts doc' seq_len stride False True of
             Inl e \<Rightarrow> ([], Some e)
           | Inr slices \<Rightarrow>
               (case slices_loop seq_len slices None of
                  (ys, Inl e) \<Rightarrow> (ys, Some e)
                | (ys, Inr extra_tokens') \<Rightarrow>
                    (case docs_loop seq_len stride docs extra_tokens' of
                       (zs, r) \<Rightarrow> (ys @ zs, r)))))"

definition TokenSeqDataset_iter ::
  "int \<Rightarrow> int option \<Rightarrow> doc list \<Rightarrow> int list list \<times> py_error option" where
  "TokenSeqDataset_iter seq_len stride doc_cache = docs_loop seq_len stride doc_cache None"

section \<open>\<^verbatim>\<open>CausalLmDataset\<close>\<close>

text \<open>
  \<^verbatim>\<open>CausalLmDataset.__iter__\<close> calls code that is not among the sources:
  \<^verbatim>\<open>jax.random.split\<close>, \<^verbatim>\<open>LmExample.causal\<close>,
  \<^verbatim>\<open>hax.nn.attention.forgetful_causal_mask\<close> and the conjunction of the example's
  attention mask with \<^verbatim>\<open>AttentionMask.explicit(fcm_mask)\<close>. They are parameters, over
  any type of keys \<open>'k\<close>, of examples \<open>'e\<close> and of sampled masks \<open>'m\<close>; \<open>with_fcm\<close> stands
  for \<^verbatim>\<open>dataclasses.replace(example, attn_mask=example.attn_mask & AttentionMask.explicit(m))\<close>.
  The probability is a real number.
\<close>

record ('k, 'e, 'm) lm_ops =
  split :: "'k \<Rightarrow> 'k \<times> 'k"
  causal :: "int list \<Rightarrow> 'e"
  forgetful_causal_mask :: "real \<Rightarrow> 'k \<Rightarrow> 'm"
  with_fcm :: "'e \<Rightarrow> 'm \<Rightarrow> 'e"

record 'k causal_lm_dataset =
  dataset :: "int list list"
  fcm_prob :: real
  root_key :: "'k option"

text \<open>\<^verbatim>\<open>CausalLmDataset.__init__\<close>: a positive probability needs a key.\<close>

definition CausalLmDataset_init ::
  "int list list \<Rightarrow> real \<Rightarrow> 'k option \<Rightarrow> py_error + 'k causal_lm_dataset" where
  "CausalLmDataset_init ds p k =
     (if p > 0 \<and> k = None then Inl ValueError
      else Inr \<lparr>dataset = ds, fcm_prob = p, root_key = k\<rparr>)"

text \<open>
  The inner function \<^verbatim>\<open>_create_lm_example(tokens, key)\<close>. The second component of the
  split is bound to the parameter \<open>key\<close> of this function and is lost when it returns.
  Splitting \<^verbatim>\<open>None\<close> raises \<^verbatim>\<open>TypeError\<close>.
\<close>

definition create_lm_example ::
  "('k, 'e, 'm) lm_ops \<Rightarrow> 'k causal_lm_dataset \<Rightarrow> int list \<Rightarrow> 'k option \<Rightarrow> py_error + 'e" where
  "create_lm_example ops self toks key =
     (let example = causal ops toks in
        if fcm_prob self > 0
        then
          (if root_key self = None then Inl AssertionError
           else
             (case key of
                None \<Rightarrow> Inl TypeError
              | Some k \<Rightarrow>
                  (case split ops k of
                     (this_key, key') \<Rightarrow>
                       let fcm_mask = forgetful_causal_mask ops (fcm_prob self) this_key
                       in Inr (with_fcm ops example fcm_mask))))
        else Inr example)"

text \<open>
  \<^verbatim>\<open>CausalLmDataset.__iter__\<close>: \<open>key\<close> is read from the dataset once, before the loop,
  and each pass of the loop hands this same \<open>key\<close> to \<^verbatim>\<open>_create_lm_example\<close>.
\<close>

definition CausalLmDataset_iter ::
  "('k, 'e, 'm) lm_ops \<Rightarrow> 'k causal_lm_dataset \<Rightarrow> py_error + 'e list" where
  "CausalLmDataset_iter ops self =
     (let key = root_key self
      in collect (\<lambda>toks. create_lm_example ops self toks key) (dataset self))"

text \<open>
  Concrete operations on which the iteration can be run: keys are natural numbers,
  splitting \<open>k\<close> gives \<open>2k + 1\<close> and \<open>2k + 2\<close>, a sampled mask is named by the key it was
  sampled with, and an example is its tokens with the sampled mask, if any.
\<close>

definition demo_lm_ops :: "(nat, int list \<times> nat option, nat) lm_ops" where
  "demo_lm_ops =
     \<lparr>split = (\<lambda>k. (2 * k + 1, 2 * k + 2)), causal = (\<lambda>t. (t, None)),
      forgetful_causal_mask = (\<lambda>p k. k), with_fcm = (\<lambda>e m. (fst e, Some m))\<rparr>"

section \<open>What the merge is expected to compute\<close>

text \<open>
  The definitions of this section are not translations of the code: they state, in
  terms of the records of a batch, what the loops above are proved to compute.

  What the merge makes of one fragment with word count \<open>w\<close> and tokens \<open>toks\<close>: the
  boundary token \<open>w + eos_id + 1\<close> goes in front when \<open>w\<close> is below the maximum and the
  first token is not the end-of-sequence token.
\<close>

definition annotate :: "int \<Rightarrow> int \<Rightarrow> int \<times> int list \<Rightarrow> int list" where
  "annotate eos_id max_len fr =
     (case fr of (w, toks) \<Rightarrow>
        if w < max_len \<and> hd toks \<noteq> eos_id then [w + eos_id + 1] @ toks else toks)"

text \<open>
  The guard of the code, \<^verbatim>\<open>wc[i] < max_sentence_len and v[i][0] != eos_token_id\<close>: the
  fragments that get a boundary token.
\<close>

definition prefix_guard :: "int \<Rightarrow> int \<Rightarrow> int \<times> int list \<Rightarrow> bool" where
  "prefix_guard eos_id max_len fr = (case fr of (w, toks) \<Rightarrow> w < max_len \<and> hd toks \<noteq> eos_id)"

text \<open>
  The eligible fragments as the specification words them: the word count does not
  exceed the maximum and the fragment is not the end-of-sequence token itself.
\<close>

definition eligible_as_claimed :: "int \<Rightarrow> int \<Rightarrow> int \<times> int list \<Rightarrow> bool" where
  "eligible_as_claimed eos_id max_len fr =
     (case fr of (w, toks) \<Rightarrow> \<not> (w > max_len \<or> toks = [eos_id]))"

text \<open>
  The rule as the specification words it: no boundary token when the word count
  exceeds the maximum or the fragment is the end-of-sequence token itself.
\<close>

definition annotate_as_claimed :: "int \<Rightarrow> int \<Rightarrow> int \<times> int list \<Rightarrow> int list" where
  "annotate_as_claimed eos_id max_len fr =
     (case fr of (w, toks) \<Rightarrow>
        if w > max_len \<or> toks = [eos_id] then toks else [w + eos_id + 1] @ toks)"

text \<open>
  Flagged items split into records: an item starts a record, and the items after it
  whose flag is \<open>True\<close> belong to that record.
\<close>

function split_records :: "(bool \<times> 'a) list \<Rightarrow> 'a list list" where
  "split_records [] = []"
| "split_records ((f, x) # r) = (x # map snd (takeWhile fst r)) # split_records (dropWhile fst r)"
  by pat_completeness auto
termination
  by (relation "measure length") (auto simp: length_dropWhile_le le_imp_less_Suc)

text \<open>The same split with a record under way, and the final flush of the loop.\<close>

fun regroup :: "'a list \<Rightarrow> (bool \<times> 'a) list \<Rightarrow> 'a list list" where
  "regroup cur [] = (if cur = [] then [] else [cur])"
| "regroup cur ((f, x) # r) =
     (if f then regroup (cur @ [x]) r else (if cur = [] then [] else [cur]) @ regroup [x] r)"

definition flush :: "'a list list \<times> 'a list list \<Rightarrow> 'a list list" where
  "flush st = (case st of (v_out, vs) \<Rightarrow> if length vs > 0 then v_out @ [concat vs] else v_out)"

text \<open>A list cut into consecutive pieces of the given lengths.\<close>

fun chunks :: "nat list \<Rightarrow> 'a list \<Rightarrow> 'a list list" where
  "chunks [] xs = []"
| "chunks (k # ks) xs = take k xs # chunks ks (drop k xs)"

text \<open>The merge flags of a record of \<open>k\<close> fragments.\<close>

definition record_flags :: "nat \<Rightarrow> bool list" where
  "record_flags k = [False] @ replicate (k - 1) True"

text \<open>The merged value of a list-valued field.\<close>

fun merged_lists :: "bool list \<Rightarrow> int list \<Rightarrow> int \<Rightarrow> int \<Rightarrow> field_value \<Rightarrow> field_value" where
  "merged_lists needs_merge wc eos_id max_len (Lists l) =
     Lists (map concat (split_records (zip needs_merge (map (annotate eos_id max_len) (zip wc l)))))"
| "merged_lists needs_merge wc eos_id max_len v = v"

text \<open>
  A field as a tokenizer returns it for \<open>n\<close> strings: \<open>n\<close> Python lists, each with at
  least one token.
\<close>

fun list_field_ok :: "nat \<Rightarrow> field_value \<Rightarrow> bool" where
  "list_field_ok n (Lists l) = (length l = n \<and> list_all (\<lambda>t. t \<noteq> []) l)"
| "list_field_ok n v = False"

text \<open>
  A record passes the filter of \<^verbatim>\<open>__call__\<close> when the condition of the \<^verbatim>\<open>continue\<close>
  evaluates to \<^verbatim>\<open>False\<close>. Its fragments are its sentences and, when the end-of-sequence
  string is appended, that string; its word counts run alongside.
\<close>

definition passes_filter :: "string \<Rightarrow> bool" where
  "passes_filter d \<longleftrightarrow> should_skip (normalize_quotes d) = Inr False"

definition record_sentences :: "string \<Rightarrow> string list" where
  "record_sentences d = collect_sentences (re_split_sentences (normalize_quotes d))"

definition record_fragments :: "batch_tokenizer \<Rightarrow> string \<Rightarrow> string list" where
  "record_fragments bt d =
     record_sentences d @ (if need_to_add_eos bt then [eos_token (bt_tokenizer bt)] else [])"

definition record_word_counts :: "batch_tokenizer \<Rightarrow> string \<Rightarrow> int list" where
  "record_word_counts bt d =
     map (\<lambda>s. int (length (py_split s))) (record_sentences d)
       @ (if need_to_add_eos bt then [1] else [])"

text \<open>
  For the token lists \<open>l\<close> of the fragments of a batch, in order: per record, the sum of
  the token counts of its fragments plus the number of its fragments that pass the
  guard of the code.
\<close>

definition expected_counts :: "batch_tokenizer \<Rightarrow> string list \<Rightarrow> int list list \<Rightarrow> nat list" where
  "expected_counts bt orig_batch l =
     map (\<lambda>frs. sum_list (map (\<lambda>fr. length (snd fr)) frs)
                + length (filter (prefix_guard (bt_eos_token_id bt) (max_sentence_len bt)) frs))
       (chunks (map (\<lambda>d. length (record_fragments bt d)) orig_batch)
          (zip (concat (map (record_word_counts bt) orig_batch)) l))"

text \<open>
  The same count with the eligible fragments as the specification words them.
\<close>

definition expected_counts_as_claimed ::
  "batch_tokenizer \<Rightarrow> string list \<Rightarrow> int list list \<Rightarrow> nat list" where
  "expected_counts_as_claimed bt orig_batch l =
     map (\<lambda>frs. sum_list (map (\<lambda>fr. length (snd fr)) frs)
                + length (filter (eligible_as_claimed (bt_eos_token_id bt) (max_sentence_len bt)) frs))
       (chunks (map (\<lambda>d. length (record_fragments bt d)) orig_batch)
          (zip (concat (map (record_word_counts bt) orig_batch)) l))"

text \<open>
  A field of the output against the field the tokenizer returned: one merged sequence
  per record, each of the expected length.
\<close>

fun field_counts_ok ::
  "batch_tokenizer \<Rightarrow> string list \<Rightarrow> field_value \<Rightarrow> field_value \<Rightarrow> bool" where
  "field_counts_ok bt orig_batch (Lists l) (Lists m) =
     (length m = length orig_batch \<and> map length m = expected_counts bt orig_batch l)"
| "field_counts_ok bt orig_batch v v' = False"

text \<open>
  The filter as the specification words it: the record ends in a terminator, or in a
  terminator followed by one newline.
\<close>

definition ends_in_terminator_as_claimed :: "string \<Rightarrow> bool" where
  "ends_in_terminator_as_claimed d \<longleftrightarrow>
     d \<noteq> [] \<and> (is_terminator (last d)
       \<or> (last d = CHR 0x0A \<and> butlast d \<noteq> [] \<and> is_terminator (last (butlast d))))"

text \<open>The characters of a string that are not whitespace, in order.\<close>

definition nonspace :: "string \<Rightarrow> string" where
  "nonspace s = filter (\<lambda>c. \<not> is_space c) s"

section \<open>Properties of the string functions\<close>


lemma split_acc_all_space: "list_all is_space s \<Longrightarrow> split_acc [] s = []"
  by (induction s) auto

lemma py_split_all_space: "list_all is_space s \<Longrightarrow> py_split s = []"
  by (simp add: py_split_def split_acc_all_space)

lemma py_replace2_absent: "a \<notin> set s \<Longrightarrow> py_replace2 a b c d s = s"
  by (induction a b c d s rule: py_replace2.induct) auto

lemma terminator_not_space: "is_terminator c \<Longrightarrow> \<not> is_space c"
  by (auto simp: is_terminator_def is_space_def)

lemma normalize_quotes_all_space:
  assumes "list_all is_space s"
  shows "normalize_quotes s = s"
proof -
  have "CHR ''.'' \<notin> set s" "CHR ''?'' \<notin> set s" "CHR ''!'' \<notin> set s"
    using assms terminator_not_space by (auto simp: is_terminator_def list_all_iff)
  then show ?thesis by (simp add: normalize_quotes_def py_replace2_absent)
qed

lemma should_skip_all_space:
  assumes "list_all is_space s"
  shows "should_skip s = Inl IndexError"
proof (cases "s = []")
  case True
  then show ?thesis by (simp add: should_skip_def)
next
  case False
  have "list_all is_space (butlast s)"
    using assms by (auto simp: list_all_iff dest: in_set_butlastD)
  then have "last_word_unterminated (butlast s) = Inl IndexError"
    by (simp add: last_word_unterminated_def py_split_all_space)
  moreover have "last_word_unterminated s = Inl IndexError"
    using assms by (simp add: last_word_unterminated_def py_split_all_space)
  ultimately show ?thesis using False by (simp add: should_skip_def)
qed

lemma last_word_unterminated_error: "last_word_unterminated s = Inl e \<Longrightarrow> e = IndexError"
  by (auto simp: last_word_unterminated_def split: list.splits)

lemma should_skip_error: "should_skip s = Inl e \<Longrightarrow> e = IndexError"
  by (auto simp: should_skip_def split: if_splits sum.splits bool.splits
      dest: last_word_unterminated_error)

section \<open>Records without a word\<close>

lemma call_step_error: "call_step bt d st = Inl e \<Longrightarrow> e = IndexError"
  by (auto simp: call_step_def Let_def split: prod.splits sum.splits bool.splits if_splits
      dest: should_skip_error)

lemma call_step_all_space: "list_all is_space d \<Longrightarrow> call_step bt d st = Inl IndexError"
  by (simp add: call_step_def normalize_quotes_all_space should_skip_all_space split: prod.splits)

lemma for_each_raises:
  assumes "x \<in> set xs" "\<And>s. f x s = Inl err" "\<And>y s e. f y s = Inl e \<Longrightarrow> e = err"
  shows "for_each f xs s = Inl err"
  using assms(1)
proof (induction xs arbitrary: s)
  case Nil
  then show ?case by simp
next
  case (Cons y ys)
  show ?case
  proof (cases "f y s")
    case (Inl e)
    then show ?thesis using assms(3) by auto
  next
    case (Inr s')
    then have "x \<noteq> y" using assms(2)[of s] by auto
    then show ?thesis using Cons Inr by auto
  qed
qed

text \<open>
  C10. \<^verbatim>\<open>BatchTokenizer.__call__\<close> raises \<^verbatim>\<open>IndexError\<close> whenever a record of the batch is
  the empty string or holds whitespace only: such a record is not dropped. The loop
  raises nothing but \<^verbatim>\<open>IndexError\<close>, so this is the exception of the call whatever the
  records before it are.
\<close>

theorem call_raises_on_blank_record:
  assumes "d \<in> set orig_batch" and "list_all is_space d"
  shows "BatchTokenizer_call bt orig_batch = Inl IndexError"
proof -
  have "for_each (call_step bt) orig_batch ([], [], []) = Inl IndexError"
    by (rule for_each_raises[OF assms(1)])
       (auto simp: call_step_all_space[OF assms(2)] dest: call_step_error)
  then show ?thesis by (simp add: BatchTokenizer_call_def)
qed

theorem call_raises_on_blank_record_witness:
  "BatchTokenizer_call demo_bt [''Hi.'', ''''] = Inl IndexError
   \<and> BatchTokenizer_call demo_bt [''  '', ''Hi.''] = Inl IndexError"
  using call_raises_on_blank_record[of "''''" "[''Hi.'', '''']" demo_bt]
    call_raises_on_blank_record[of "''  ''" "[''  '', ''Hi.'']" demo_bt]
  by (simp add: is_space_def)

section \<open>The array branch of the merge\<close>

lemma merge_arrays_raises:
  assumes "a \<noteq> []" "take 1 needs_merge = [False]"
  shows "merge_arrays n needs_merge wc eos_id max_len a =
           (if length a = n then Inl ValueError else Inl AssertionError)"
proof (cases "length a = n")
  case False
  then show ?thesis by (simp add: merge_arrays_def)
next
  case True
  with assms(1) have "0 < n" by auto
  then have upt: "[0..<n] = 0 # [1..<n]" by (simp add: upt_conv_Cons)
  from assms(2) obtain r where nm: "needs_merge = False # r"
    by (cases needs_merge) auto
  have "merge_array_step needs_merge wc eos_id max_len a 0 ([], []) = Inl ValueError"
    by (simp add: merge_array_step_def nm)
  then show ?thesis using True by (simp add: merge_arrays_def upt)
qed

text \<open>
  C9. When the fields of the encoding are non-empty sequences of numpy arrays and the
  first merge flag is \<open>False\<close> (as \<^verbatim>\<open>__call__\<close> builds it), \<^verbatim>\<open>_merge_split_encodings\<close>
  raises instead of returning: \<^verbatim>\<open>AssertionError\<close> when the first field and the batch
  differ in length, and otherwise \<^verbatim>\<open>ValueError\<close>, from \<^verbatim>\<open>np.concatenate\<close> on the empty
  list in the first pass of the loop. This holds for every batch length.
\<close>

theorem merge_split_encodings_arrays_raise:
  assumes "encoding \<noteq> []" "list_all (\<lambda>(k, v). nonempty_array v) encoding"
    and "take 1 needs_merge = [False]"
  shows "merge_split_encodings n encoding needs_merge wc eos_id max_len = Inl ValueError
       \<or> merge_split_encodings n encoding needs_merge wc eos_id max_len = Inl AssertionError"
proof -
  from assms(1) obtain k v rest where e: "encoding = (k, v) # rest"
    by (cases encoding) auto
  with assms(2) obtain a where v: "v = Arrays a" "a \<noteq> []"
    by (cases v) auto
  show ?thesis
    using v by (simp add: e merge_arrays_raises[OF v(2) assms(3)])
qed

theorem merge_split_encodings_arrays_raise_witness:
  "merge_split_encodings 1 [(''input_ids'', Arrays [[5, 6]])] [False] [1] 0 1024 = Inl ValueError"
  using merge_split_encodings_arrays_raise[of "[(''input_ids'', Arrays [[5, 6]])]" "[False]" 1 "[1]" 0 1024]
  by (simp add: merge_arrays_def merge_array_step_def)


section \<open>Windows without overlap\<close>

lemma py_slice_nonneg:
  assumes "0 \<le> a" "a \<le> b"
  shows "py_slice xs a b = take (nat (b - a)) (drop (nat a) xs)"
proof (cases "b \<le> int (length xs)")
  case True
  then show ?thesis using assms by (simp add: py_slice_def Let_def min_def)
next
  case False
  show ?thesis
  proof (cases "a \<le> int (length xs)")
    case True
    have "length (drop (nat a) xs) \<le> nat (b - a)" "length (drop (nat a) xs) \<le> nat (int (length xs) - a)"
      using False True assms by auto
    then have "take (nat (b - a)) (drop (nat a) xs) = drop (nat a) xs"
      "take (nat (int (length xs) - a)) (drop (nat a) xs) = drop (nat a) xs"
      by (simp_all only: take_all)
    then show ?thesis using False True assms by (simp add: py_slice_def Let_def min_def)
  next
    case nle: False
    then show ?thesis using False assms by (simp add: py_slice_def Let_def min_def)
  qed
qed

lemma concat_chunks:
  "q * s \<le> length xs \<Longrightarrow> concat (map (\<lambda>k. take s (drop (k * s) xs)) [0..<q]) = take (q * s) xs"
proof (induction q)
  case 0 then show ?case by simp
next
  case (Suc q)
  then have "concat (map (\<lambda>k. take s (drop (k * s) xs)) [0..<q]) = take (q * s) xs" by simp
  moreover have "take (Suc q * s) xs = take (q * s) xs @ take s (drop (q * s) xs)"
    by (simp add: take_add[symmetric] add.commute)
  ultimately show ?case by simp
qed

lemma filter_upt_prefix:
  "q \<le> n \<Longrightarrow> (\<And>k. k < n \<Longrightarrow> P k \<longleftrightarrow> k < q) \<Longrightarrow> filter P [0..<n] = [0..<q]"
proof (induction n)
  case 0 then show ?case by simp
next
  case (Suc n)
  show ?case
  proof (cases "q = Suc n")
    case True
    then have "\<And>k. k < Suc n \<Longrightarrow> P k" using Suc.prems(2) by simp
    then have "filter P [0..<Suc n] = [0..<Suc n]" by (intro filter_True) auto
    then show ?thesis using True by simp
  next
    case False
    then have "q \<le> n" using Suc.prems(1) by simp
    moreover have "\<not> P n" using Suc.prems(2)[of n] \<open>q \<le> n\<close> by simp
    ultimately show ?thesis using Suc by simp
  qed
qed


lemma map_of_concatenated:
  "map_of (map (\<lambda>(k, v). (k, f v)) enc) k = map_option f (map_of enc k)"
  by (induction enc) auto

lemma collect_total:
  "(\<And>x. x \<in> set xs \<Longrightarrow> f x = Inr (g x)) \<Longrightarrow> collect f xs = Inr (map g xs)"
  by (induction xs) auto

lemma py_range_from_0:
  "0 < step \<Longrightarrow> py_range 0 stop step = map (\<lambda>k. int k * step) [0..<nat ((stop + step - 1) div step)]"
  by (simp add: py_range_def)

lemma full_window_iff:
  assumes "0 < s"
  shows "length (take s (drop (k * s) xs)) = s \<longleftrightarrow> k < length xs div s"
proof -
  have "length (take s (drop (k * s) xs)) = s \<longleftrightarrow> Suc k * s \<le> length xs"
    using assms by (auto simp: min_def)
  also have "\<dots> \<longleftrightarrow> Suc k \<le> length xs div s"
    using assms by (simp only: less_eq_div_iff_mult_less_eq)
  finally show ?thesis by auto
qed

text \<open>
  C2. With \<open>seq_len = stride = S > 0\<close> and \<open>drop_remainder = False\<close>,
  \<^verbatim>\<open>concatenate_and_group_texts\<close> returns windows whose \<^verbatim>\<open>input_ids\<close>, once the ones
  shorter than \<open>S\<close> are left out, concatenate in order to the first \<open>(L div S) * S\<close>
  tokens of the stream, \<open>L\<close> being the length of the concatenated \<^verbatim>\<open>input_ids\<close>.
\<close>

theorem group_texts_roundtrip:
  assumes "0 < S" and "map_of encoding ''input_ids'' = Some v"
  shows "\<exists>ws xs. concatenate_and_group_texts encoding S (Some S) False m = Inr ws
           \<and> map (\<lambda>w. map_of w ''input_ids'') ws = map Some xs
           \<and> concat (filter (\<lambda>x. int (length x) = S) xs)
               = take (nat ((int (length (concat v)) div S) * S)) (concat v)"
proof -
  define ids where "ids = concat v"
  define s where "s = nat S"
  define n where "n = nat ((int (length ids) + S - 1) div S)"
  define q where "q = length ids div s"
  define conc where "conc = map (\<lambda>(k, v). (k, concat v)) encoding"
  define data where "data = (\<lambda>b. map (\<lambda>(k, v). (k, py_slice v b (b + S))) conc)"
  define f where "f = (\<lambda>k. take s (drop (k * s) ids))"
  have s: "0 < s" "S = int s" using assms(1) by (simp_all add: s_def)
  have ids: "map_of conc ''input_ids'' = Some ids"
    by (simp add: conc_def map_of_concatenated assms(2) ids_def)
  have win: "window_at conc S S m b = Inr (data b)" for b
    by (simp add: window_at_def data_def)
  have run: "concatenate_and_group_texts encoding S (Some S) False m
               = Inr (map data (map (\<lambda>k. int k * S) [0..<n]))"
    using assms(1) ids
    by (simp add: concatenate_and_group_texts_def conc_def[symmetric] Let_def py_range_from_0
        n_def collect_total[where g = data] win)
  have slice: "py_slice ids (int k * S) (int k * S + S) = f k" for k
  proof -
    have "py_slice ids (int k * S) (int k * S + S) = take (nat S) (drop (nat (int k * S)) ids)"
      using assms(1) by (subst py_slice_nonneg) auto
    also have "nat (int k * S) = k * s" by (simp add: s(2) nat_mult_distrib)
    finally show ?thesis by (simp add: f_def s_def)
  qed
  have look: "map_of (data (int k * S)) ''input_ids'' = Some (f k)" for k
    by (simp add: data_def map_of_concatenated ids slice)
  have xs: "map (\<lambda>w. map_of w ''input_ids'') (map data (map (\<lambda>k. int k * S) [0..<n]))
              = map Some (map f [0..<n])"
    by (simp add: look comp_def)
  have qn: "q \<le> n"
  proof -
    have "int q = int (length ids) div S" by (simp add: q_def s(2) zdiv_int)
    also have "\<dots> \<le> (int (length ids) + S - 1) div S"
      using assms(1) by (intro zdiv_mono1) auto
    finally show ?thesis by (simp add: n_def)
  qed
  have "filter (\<lambda>x. int (length x) = S) (map f [0..<n]) = map f (filter (\<lambda>k. length (f k) = s) [0..<n])"
    by (simp add: filter_map comp_def s(2))
  also have "filter (\<lambda>k. length (f k) = s) [0..<n] = [0..<q]"
    using qn by (rule filter_upt_prefix) (simp only: f_def q_def full_window_iff[OF s(1)])
  finally have "concat (filter (\<lambda>x. int (length x) = S) (map f [0..<n])) = concat (map f [0..<q])"
    by simp
  also have "\<dots> = take (q * s) ids"
    unfolding f_def by (rule concat_chunks) (simp add: q_def)
  also have "q * s = nat ((int (length ids) div S) * S)"
    by (simp add: q_def s(2) zdiv_int[symmetric] nat_mult_distrib)
  finally show ?thesis
    using run xs unfolding ids_def by blast
qed

theorem group_texts_roundtrip_witness:
  "\<exists>ws xs. concatenate_and_group_texts [(''input_ids'', [[1, 2, 3], [4, 5, 6, 7, 8, 9, 10]])] 4 (Some 4) False True = Inr ws
     \<and> map (\<lambda>w. map_of w ''input_ids'') ws = map Some xs
     \<and> concat (filter (\<lambda>x. int (length x) = 4) xs) = [1, 2, 3, 4, 5, 6, 7, 8]"
  using group_texts_roundtrip[of 4 "[(''input_ids'', [[1, 2, 3], [4, 5, 6, 7, 8, 9, 10]])]" "[[1, 2, 3], [4, 5, 6, 7, 8, 9, 10]]" True]
  by simp

section \<open>Windows with overlap\<close>

lemma map_of_dict_set: "map_of (dict_set d k v) k' = (if k' = k then Some v else map_of d k')"
  by (induction d) auto

lemma length_mask_overlap_array: "length (mask_overlap_array l t s c) = length l"
  by (auto simp: mask_overlap_array_def Let_def)

lemma take_mask_overlap_array:
  assumes "s \<le> t"
  shows "take (nat (t - s)) (mask_overlap_array l t s c) = replicate (min (nat (t - s)) (length l)) c"
proof -
  define h where "h = min (nat (t - s)) (length l)"
  have hi: "nat (min (t - s) (int (length l))) = h"
    using assms unfolding h_def min_def by (simp split: if_splits; linarith)
  have m: "mask_overlap_array l t s c = replicate h c @ drop h l"
    using assms by (simp add: mask_overlap_array_def Let_def hi)
  have "take (nat (t - s) - h) (drop h l) = []"
    by (cases "nat (t - s) \<le> length l") (simp_all add: h_def min_def)
  moreover have "min (nat (t - s)) h = h" by (simp add: h_def)
  ultimately show ?thesis by (simp add: m h_def[symmetric])
qed

lemma py_range_index:
  assumes "0 < step" "j < length (py_range 0 stop step)"
  shows "py_range 0 stop step ! j = int j * step" "int j * step < stop"
proof -
  have j: "j < nat ((stop + step - 1) div step)"
    using assms by (simp add: py_range_from_0)
  then show "py_range 0 stop step ! j = int j * step"
    using assms(1) by (simp add: py_range_from_0)
  from j have "int j + 1 \<le> (stop + step - 1) div step" by linarith
  then have "(int j + 1) * step \<le> ((stop + step - 1) div step) * step"
    using assms(1) by (intro mult_right_mono) auto
  also have "\<dots> \<le> stop + step - 1"
    using div_mult_mod_eq[of "stop + step - 1" step] pos_mod_sign[OF assms(1), of "stop + step - 1"]
    by linarith
  finally have "(int j + 1) * step \<le> stop + step - 1" .
  then show "int j * step < stop" by (simp add: algebra_simps)
qed


lemma length_py_slice_nonneg:
  assumes "0 \<le> a" "a \<le> b"
  shows "int (length (py_slice xs a b)) = max 0 (min (b - a) (int (length xs) - a))"
proof -
  have "length (py_slice xs a b) = min (nat (b - a)) (length xs - nat a)"
    using assms by (simp add: py_slice_nonneg)
  then show ?thesis using assms by linarith
qed

text \<open>
  C6. With \<open>0 < stride < seq_len\<close> and \<open>mask_stride_overlap\<close> set,
  \<^verbatim>\<open>concatenate_and_group_texts\<close> returns windows of which the \<open>j\<close>-th starts at
  \<open>j * stride\<close> and
  \<^item> every field other than \<^verbatim>\<open>labels\<close>, \<^verbatim>\<open>input_ids\<close> among them, is the plain slice of the
    concatenated field: it is never masked;
  \<^item> for \<open>j > 0\<close> the \<^verbatim>\<open>labels\<close> field exists and its first \<open>seq_len - stride\<close> positions
    (those it has) hold -100; it has more than \<open>seq_len - stride\<close> positions when the
    labels are taken from \<^verbatim>\<open>input_ids\<close>.
\<close>

theorem overlap_masks_labels_only:
  assumes "0 < stride" and "stride < seq_len" and "map_of encoding ''input_ids'' = Some v"
  shows "\<exists>ws. concatenate_and_group_texts encoding seq_len (Some stride) drop_remainder True = Inr ws
     \<and> (\<forall>j<length ws.
          (\<forall>k. k \<noteq> ''labels'' \<longrightarrow>
             map_of (ws ! j) k
               = map_option (\<lambda>u. py_slice (concat u) (int j * stride) (int j * stride + seq_len))
                   (map_of encoding k))
        \<and> (0 < j \<longrightarrow>
             (\<exists>ls. map_of (ws ! j) ''labels'' = Some ls
                \<and> take (nat (seq_len - stride)) ls
                    = replicate (min (nat (seq_len - stride)) (length ls)) (- 100)
                \<and> (map_of encoding ''labels'' = None \<longrightarrow> nat (seq_len - stride) < length ls))))"
proof -
  define ids where "ids = concat v"
  define L where "L = int (length ids)"
  define conc where "conc = map (\<lambda>(k, v). (k, concat v)) encoding"
  define total where "total = (if drop_remainder \<and> L mod stride \<noteq> 0
      then ((L - seq_len + stride) div stride) * stride else L)"
  define stop where "stop = total - seq_len + stride"
  define data where "data b = map (\<lambda>(k, v). (k, py_slice v b (b + seq_len))) conc" for b
  define base where "base b = (case map_of (data b) ''labels'' of Some l \<Rightarrow> l
      | None \<Rightarrow> py_slice ids b (b + seq_len))" for b
  define lab where "lab b = (if b \<noteq> 0 then mask_overlap_array (base b) seq_len stride (- 100)
      else base b)" for b
  define g where "g b = dict_set (data b) ''labels'' (lab b)" for b
  have ids: "map_of conc ''input_ids'' = Some ids"
    by (simp add: conc_def map_of_concatenated assms(3) ids_def)
  have look: "map_of (data b) k = map_option (\<lambda>u. py_slice (concat u) b (b + seq_len)) (map_of encoding k)"
    for b k
  proof -
    have "map_of (data b) k = map_option (\<lambda>u. py_slice u b (b + seq_len)) (map_of conc k)"
      unfolding data_def by (rule map_of_concatenated)
    also have "map_of conc k = map_option concat (map_of encoding k)"
      unfolding conc_def by (rule map_of_concatenated)
    finally show ?thesis by (simp add: option.map_comp comp_def)
  qed
  have idsb: "map_of (data b) ''input_ids'' = Some (py_slice ids b (b + seq_len))" for b
    by (simp add: look assms(3) ids_def)
  have win: "window_at conc seq_len stride True b = Inr (g b)" for b
    using assms(2) unfolding window_at_def data_def[symmetric]
    by (cases "b = 0") (simp_all add: idsb g_def lab_def base_def Let_def cong: option.case_cong)
  have run: "concatenate_and_group_texts encoding seq_len (Some stride) drop_remainder True
               = Inr (map g (py_range 0 stop stride))"
    using assms(1) ids
    by (simp add: concatenate_and_group_texts_def conc_def[symmetric] Let_def
        collect_total[where g = g] win stop_def total_def L_def)
  have total_le: "total \<le> L"
  proof -
    have "((L - seq_len + stride) div stride) * stride \<le> L - seq_len + stride"
      using div_mult_mod_eq[of "L - seq_len + stride" stride]
        pos_mod_sign[OF assms(1), of "L - seq_len + stride"]
      by linarith
    then show ?thesis using assms(2) by (simp add: total_def)
  qed
  have main: "(\<forall>k. k \<noteq> ''labels'' \<longrightarrow>
             map_of (map g (py_range 0 stop stride) ! j) k
               = map_option (\<lambda>u. py_slice (concat u) (int j * stride) (int j * stride + seq_len))
                   (map_of encoding k))
        \<and> (0 < j \<longrightarrow>
             (\<exists>ls. map_of (map g (py_range 0 stop stride) ! j) ''labels'' = Some ls
                \<and> take (nat (seq_len - stride)) ls
                    = replicate (min (nat (seq_len - stride)) (length ls)) (- 100)
                \<and> (map_of encoding ''labels'' = None \<longrightarrow> nat (seq_len - stride) < length ls)))"
    if j: "j < length (map g (py_range 0 stop stride))" for j
  proof -
    define b where "b = int j * stride"
    from j have j': "j < length (py_range 0 stop stride)" by simp
    have nth: "map g (py_range 0 stop stride) ! j = g b" and b_lt: "b < stop"
      using py_range_index[OF assms(1) j'] j' by (simp_all add: b_def)
    have b0: "0 \<le> b" using assms(1) by (simp add: b_def)
    have other: "map_of (g b) k = map_option (\<lambda>u. py_slice (concat u) b (b + seq_len)) (map_of encoding k)"
      if "k \<noteq> ''labels''" for k
      using that by (simp add: g_def map_of_dict_set look)
    have labels: "\<exists>ls. map_of (g b) ''labels'' = Some ls
                \<and> take (nat (seq_len - stride)) ls
                    = replicate (min (nat (seq_len - stride)) (length ls)) (- 100)
                \<and> (map_of encoding ''labels'' = None \<longrightarrow> nat (seq_len - stride) < length ls)"
      if "0 < j"
    proof -
      from that have "b \<noteq> 0" using assms(1) by (simp add: b_def)
      then have l: "map_of (g b) ''labels'' = Some (mask_overlap_array (base b) seq_len stride (- 100))"
        by (simp add: g_def map_of_dict_set lab_def)
      have t: "take (nat (seq_len - stride)) (mask_overlap_array (base b) seq_len stride (- 100))
                 = replicate (min (nat (seq_len - stride))
                     (length (mask_overlap_array (base b) seq_len stride (- 100)))) (- 100)"
        using assms(2) by (simp add: take_mask_overlap_array length_mask_overlap_array)
      have n: "nat (seq_len - stride) < length (mask_overlap_array (base b) seq_len stride (- 100))"
        if none: "map_of encoding ''labels'' = None"
      proof -
        have "base b = py_slice ids b (b + seq_len)"
          by (simp add: base_def look none)
        then have "int (length (base b)) = max 0 (min seq_len (L - b))"
          using b0 assms(1,2) by (simp add: length_py_slice_nonneg L_def)
        moreover have "seq_len - stride < L - b"
          using b_lt total_le by (simp add: stop_def)
        ultimately have "seq_len - stride < int (length (base b))"
          using assms(1,2) by (simp add: min_def max_def)
        then have "nat (seq_len - stride) < length (base b)"
          using assms(2) by (simp add: nat_less_iff)
        then show ?thesis by (simp add: length_mask_overlap_array)
      qed
      show ?thesis
        by (rule exI[of _ "mask_overlap_array (base b) seq_len stride (- 100)"])
           (use l t n in simp)
    qed
    show ?thesis unfolding nth using other labels by (simp add: b_def)
  qed
  show ?thesis
    unfolding run using main by blast
qed


theorem overlap_masks_labels_only_witness:
  "\<exists>ws. concatenate_and_group_texts [(''input_ids'', [[1, 2, 3], [4, 5, 6, 7, 8, 9, 10]])] 4 (Some 2) False True = Inr ws
     \<and> length ws = 4
     \<and> map_of (ws ! 1) ''input_ids'' = Some [3, 4, 5, 6]
     \<and> map_of (ws ! 1) ''labels'' = Some [- 100, - 100, 5, 6]"
proof -
  have ev: "concatenate_and_group_texts [(''input_ids'', [[1, 2, 3], [4, 5, 6, 7, 8, 9, 10]])] 4 (Some 2) False True
    = Inr [[(''input_ids'', [1, 2, 3, 4]), (''labels'', [1, 2, 3, 4])],
           [(''input_ids'', [3, 4, 5, 6]), (''labels'', [- 100, - 100, 5, 6])],
           [(''input_ids'', [5, 6, 7, 8]), (''labels'', [- 100, - 100, 7, 8])],
           [(''input_ids'', [7, 8, 9, 10]), (''labels'', [- 100, - 100, 9, 10])]]"
    by code_simp
  show ?thesis
    using overlap_masks_labels_only[of 2 4 "[(''input_ids'', [[1, 2, 3], [4, 5, 6, 7, 8, 9, 10]])]"
        "[[1, 2, 3], [4, 5, 6, 7, 8, 9, 10]]" False]
    unfolding ev by simp
qed

section \<open>\<^verbatim>\<open>TokenSeqDataset\<close> with a stride\<close>

text \<open>
  C5 says that a document too short to fill a window is held back and put in front of
  the next document. The iteration does so for the default stride, as the second
  equation shows, and not for a stride below \<open>seq_len\<close>: with \<open>seq_len = 8\<close> and
  \<open>stride = 2\<close> the range of window starts \<^verbatim>\<open>range(0, 3 - 8 + 2, 2)\<close> of a document of
  three tokens is empty, so the document yields no slice at all: its tokens are
  neither yielded nor carried, and the arrays yielded come from the second document
  alone. With \<open>seq_len = 4\<close> and \<open>stride = 2\<close> the carried slice has a \<^verbatim>\<open>labels\<close> field
  that the next document lacks, and stacking the two raises \<^verbatim>\<open>KeyError\<close>.
\<close>

theorem token_seq_stride_loses_short_document:
  "TokenSeqDataset_iter 8 (Some 2)
     [[(''input_ids'', [[1, 2, 3]])], [(''input_ids'', [[4, 5, 6, 7, 8, 9, 10, 11, 12, 13]])]]
     = ([[4, 5, 6, 7, 8, 9, 10, 11], [6, 7, 8, 9, 10, 11, 12, 13]], None)
   \<and> TokenSeqDataset_iter 8 None
     [[(''input_ids'', [[1, 2, 3]])], [(''input_ids'', [[4, 5, 6, 7, 8, 9, 10, 11, 12, 13]])]]
     = ([[1, 2, 3, 4, 5, 6, 7, 8]], None)
   \<and> TokenSeqDataset_iter 4 (Some 2)
     [[(''input_ids'', [[1, 2, 3, 4, 5]])], [(''input_ids'', [[6, 7]])]]
     = ([[1, 2, 3, 4]], Some KeyError)"
  by code_simp

section \<open>The keys of \<^verbatim>\<open>CausalLmDataset\<close>\<close>

text \<open>
  C8 says that each example gets a freshly split subkey, so that the sampled masks
  differ from example to example. In the iteration every example is built from the
  root key itself: with a positive probability and a root key \<open>k\<close>, the mask of every
  example is sampled with the one subkey \<open>fst (split k)\<close>. (That two iterations from
  the same root key agree follows, the iteration being a function of its arguments.)
\<close>

theorem causal_lm_iter_reuses_subkey:
  assumes "0 < fcm_prob self" and "root_key self = Some k"
  shows "CausalLmDataset_iter ops self
           = Inr (map (\<lambda>toks. with_fcm ops (causal ops toks)
                     (forgetful_causal_mask ops (fcm_prob self) (fst (split ops k))))
                   (dataset self))"
  unfolding CausalLmDataset_iter_def Let_def
  by (rule collect_total) (simp add: create_lm_example_def assms split: prod.splits)

theorem causal_lm_iter_reuses_subkey_witness:
  "CausalLmDataset_iter demo_lm_ops
     \<lparr>dataset = [[1, 2], [3, 4]], fcm_prob = 1 / 2, root_key = Some 0\<rparr>
     = Inr [([1, 2], Some 1), ([3, 4], Some 1)]"
  using causal_lm_iter_reuses_subkey[of
      "\<lparr>dataset = [[1, 2], [3, 4]], fcm_prob = 1 / 2, root_key = Some (0::nat)\<rparr>" 0 demo_lm_ops]
  by (simp add: demo_lm_ops_def)

section \<open>The list branch of the merge\<close>

lemma regroup_split_records:
  "regroup cur ys =
     (if cur = [] then split_records ys
      else (cur @ map snd (takeWhile fst ys)) # split_records (dropWhile fst ys))"
proof (induction ys arbitrary: cur)
  case Nil
  then show ?case by simp
next
  case (Cons y ys)
  obtain f x where y: "y = (f, x)" by (cases y)
  show ?case
  proof (cases f)
    case True
    then show ?thesis using Cons[of "cur @ [x]"] by (simp add: y)
  next
    case False
    then show ?thesis using Cons[of "[x]"] by (simp add: y)
  qed
qed

lemma merge_list_step_ok:
  assumes "i < length needs_merge" "i < length wc" "i < length v"
    and "wc ! i < max_len \<longrightarrow> v ! i \<noteq> []"
  shows "merge_list_step needs_merge wc eos_id max_len v i (v_out, vs) =
           Inr (if needs_merge ! i then (v_out, vs @ [annotate eos_id max_len (wc ! i, v ! i)])
                else ((if vs = [] then v_out else v_out @ [concat vs]),
                      [annotate eos_id max_len (wc ! i, v ! i)]))"
  using assms by (auto simp: merge_list_step_def annotate_def Let_def)

lemma merge_loop_regroup:
  assumes "length needs_merge = n" "length wc = n" "length v = n"
    and "\<forall>i<n. wc ! i < max_len \<longrightarrow> v ! i \<noteq> []"
  shows "i \<le> n \<Longrightarrow>
    \<exists>st'. for_each (merge_list_step needs_merge wc eos_id max_len v) [i..<n] (v_out, vs) = Inr st'
      \<and> flush st' = v_out @ map concat
            (regroup vs (drop i (zip needs_merge (map (annotate eos_id max_len) (zip wc v)))))"
proof (induction "n - i" arbitrary: i v_out vs)
  case 0
  then have "i = n" by simp
  then show ?case using assms(1,2,3) by (simp add: flush_def)
next
  case (Suc m)
  then have i: "i < n" by simp
  let ?ys = "zip needs_merge (map (annotate eos_id max_len) (zip wc v))"
  let ?a = "annotate eos_id max_len (wc ! i, v ! i)"
  have upt: "[i..<n] = i # [Suc i..<n]" using i by (simp add: upt_conv_Cons)
  have len: "length ?ys = n" using assms(1,2,3) by simp
  have nth: "?ys ! i = (needs_merge ! i, ?a)" using i assms(1,2,3) by simp
  have "drop i ?ys = ?ys ! i # drop (Suc i) ?ys"
    using i len by (simp only: Cons_nth_drop_Suc)
  then have drop: "drop i ?ys = (needs_merge ! i, ?a) # drop (Suc i) ?ys"
    by (simp only: nth)
  have step: "merge_list_step needs_merge wc eos_id max_len v i (out, ws) =
           Inr (if needs_merge ! i then (out, ws @ [?a])
                else ((if ws = [] then out else out @ [concat ws]), [?a]))" for out ws
    using i assms by (intro merge_list_step_ok) auto
  have m: "m = n - Suc i" using Suc(2) by simp
  show ?case
  proof (cases "needs_merge ! i")
    case True
    from Suc(1)[OF m, of v_out "vs @ [?a]"] i
    show ?thesis by (simp add: upt step True drop)
  next
    case False
    from Suc(1)[OF m, of "if vs = [] then v_out else v_out @ [concat vs]" "[?a]"] i
    show ?thesis by (cases "vs = []") (simp_all add: upt step False drop)
  qed
qed

lemma merge_lists_split_records:
  assumes "length needs_merge = n" "length wc = n" "length v = n"
    and "\<forall>i<n. wc ! i < max_len \<longrightarrow> v ! i \<noteq> []"
  shows "merge_lists n needs_merge wc eos_id max_len v =
           Inr (map concat (split_records (zip needs_merge (map (annotate eos_id max_len) (zip wc v)))))"
proof -
  from merge_loop_regroup[OF assms, where i = 0 and eos_id = eos_id and v_out = "[]" and vs = "[]"]
  obtain st' where st: "for_each (merge_list_step needs_merge wc eos_id max_len v) [0..<n] ([], []) = Inr st'"
    "flush st' = map concat (regroup [] (zip needs_merge (map (annotate eos_id max_len) (zip wc v))))"
    by auto
  then show ?thesis
    by (cases st') (simp add: merge_lists_def flush_def regroup_split_records)
qed

lemma take_drop_while_block:
  assumes "m \<le> length ys" "fl = [] \<or> \<not> hd fl"
  shows "takeWhile fst (zip (replicate m True @ fl) ys) = zip (replicate m True) (take m ys)"
    and "dropWhile fst (zip (replicate m True @ fl) ys) = zip fl (drop m ys)"
  using assms
proof (induction m arbitrary: ys)
  case 0
  { case 1 then show ?case by (cases fl; cases ys) auto
  next
    case 2 then show ?case by (cases fl; cases ys) auto }
next
  case (Suc m)
  { case 1
    then obtain y ys' where "ys = y # ys'" by (cases ys) auto
    then show ?case using Suc.IH(1)[of ys'] 1 by simp
  next
    case 2
    then obtain y ys' where "ys = y # ys'" by (cases ys) auto
    then show ?case using Suc.IH(2)[of ys'] 2 by simp }
qed

lemma concat_record_flags_head:
  "list_all (\<lambda>k. 0 < k) ks \<Longrightarrow> concat (map record_flags ks) = [] \<or> \<not> hd (concat (map record_flags ks))"
  by (cases ks) (auto simp: record_flags_def)

lemma split_records_blocks:
  assumes "list_all (\<lambda>k. 0 < k) ks" "length xs = sum_list ks"
  shows "split_records (zip (concat (map record_flags ks)) xs) = chunks ks xs"
  using assms
proof (induction ks arbitrary: xs)
  case Nil
  then show ?case by simp
next
  case (Cons k ks)
  then obtain m where k: "k = Suc m" by (cases k) auto
  from Cons.prems k obtain x xs' where xs: "xs = x # xs'" by (cases xs) auto
  let ?fl = "concat (map record_flags ks)"
  have pos: "list_all (\<lambda>k. 0 < k) ks" using Cons.prems(1) by simp
  have len: "m \<le> length xs'" "length (drop m xs') = sum_list ks"
    using Cons.prems(2) k xs by auto
  have hd: "?fl = [] \<or> \<not> hd ?fl" by (rule concat_record_flags_head[OF pos])
  have "split_records (zip (concat (map record_flags (k # ks))) xs)
          = (x # map snd (zip (replicate m True) (take m xs'))) # split_records (zip ?fl (drop m xs'))"
    by (simp add: record_flags_def k xs take_drop_while_block[OF len(1) hd])
  also have "map snd (zip (replicate m True) (take m xs')) = take m xs'"
    using len(1) by simp
  also have "split_records (zip ?fl (drop m xs')) = chunks ks (drop m xs')"
    by (rule Cons.IH[OF pos len(2)])
  finally show ?case by (simp add: k xs)
qed

lemma chunks_length: "length (chunks ks xs) = length ks"
  by (induction ks arbitrary: xs) auto

lemma merge_split_encodings_lists:
  assumes "0 < n" "length needs_merge = n" "length wc = n"
    and "list_all (\<lambda>(k, v). list_field_ok n v) encoding"
  shows "merge_split_encodings n encoding needs_merge wc eos_id max_len
           = Inr (map (\<lambda>(k, v). (k, merged_lists needs_merge wc eos_id max_len v)) encoding)"
  using assms(4)
proof (induction encoding)
  case Nil
  then show ?case by simp
next
  case (Cons kv encoding)
  obtain k v where kv: "kv = (k, v)" by (cases kv)
  with Cons.prems obtain l where v: "v = Lists l" "length l = n" "list_all (\<lambda>t. t \<noteq> []) l"
    by (cases v) auto
  have "merge_lists n needs_merge wc eos_id max_len l =
           Inr (map concat (split_records (zip needs_merge (map (annotate eos_id max_len) (zip wc l)))))"
    using assms(2,3) v by (intro merge_lists_split_records) (auto simp: list_all_length)
  then show ?case using Cons assms(1) v by (simp add: kv)
qed

section \<open>The loop of \<^verbatim>\<open>__call__\<close> on records that pass the filter\<close>

lemma re_split_acc_nonempty_piece:
  "acc \<noteq> [] \<or> d \<noteq> [] \<Longrightarrow> \<exists>p\<in>set (re_split_acc acc d). p \<noteq> []"
  by (induction acc d rule: re_split_acc.induct) auto

lemma collect_sentences_nonempty:
  "\<exists>p\<in>set ps. p \<noteq> [] \<Longrightarrow> collect_sentences ps \<noteq> []"
  by (induction ps) auto

lemma should_skip_Inr_nonempty: "should_skip d = Inr b \<Longrightarrow> d \<noteq> []"
  by (auto simp: should_skip_def)

lemma record_sentences_nonempty: "passes_filter d \<Longrightarrow> record_sentences d \<noteq> []"
  unfolding passes_filter_def record_sentences_def re_split_sentences_def
  by (intro collect_sentences_nonempty re_split_acc_nonempty_piece)
     (auto dest: should_skip_Inr_nonempty)

lemma length_record_word_counts:
  "length (record_word_counts bt d) = length (record_fragments bt d)"
  by (simp add: record_word_counts_def record_fragments_def)

lemma call_step_pass:
  assumes "passes_filter d"
  shows "call_step bt d (batch, needs_merge, wc) =
           Inr (batch @ record_fragments bt d,
                needs_merge @ record_flags (length (record_fragments bt d)),
                wc @ record_word_counts bt d)"
proof -
  have ne: "record_sentences d \<noteq> []" by (rule record_sentences_nonempty[OF assms])
  then have rep: "replicate (length (record_sentences d) - Suc 0) True @ [True]
                    = replicate (length (record_sentences d)) True"
    by (cases "record_sentences d") (simp_all add: replicate_append_same)
  show ?thesis
    using assms ne rep
    by (simp add: call_step_def passes_filter_def record_fragments_def record_word_counts_def
        record_flags_def record_sentences_def[symmetric] Let_def)
qed

lemma for_each_call_step_pass:
  assumes "list_all passes_filter orig_batch"
  shows "for_each (call_step bt) orig_batch (batch, needs_merge, wc) =
           Inr (batch @ concat (map (record_fragments bt) orig_batch),
                needs_merge @ concat (map (\<lambda>d. record_flags (length (record_fragments bt d))) orig_batch),
                wc @ concat (map (record_word_counts bt) orig_batch))"
  using assms
  by (induction orig_batch arbitrary: batch needs_merge wc) (simp_all add: call_step_pass)

lemma length_annotate:
  "length (annotate eos_id max_len fr) = length (snd fr) + (if prefix_guard eos_id max_len fr then 1 else 0)"
  by (cases fr) (simp add: annotate_def prefix_guard_def)

lemma length_concat_annotate:
  "length (concat (map (annotate eos_id max_len) frs))
     = sum_list (map (\<lambda>fr. length (snd fr)) frs) + length (filter (prefix_guard eos_id max_len) frs)"
  by (induction frs) (simp_all add: length_annotate)

lemma chunks_map: "chunks ks (map f xs) = map (map f) (chunks ks xs)"
  by (induction ks arbitrary: xs) (simp_all add: take_map drop_map)

lemma length_record_flags: "0 < k \<Longrightarrow> length (record_flags k) = k"
  by (simp add: record_flags_def)

lemma length_concat_sum: "length (concat (map f xs)) = sum_list (map (\<lambda>x. length (f x)) xs)"
  by (induction xs) simp_all

lemma list_all2_map_same:
  "(\<And>x. x \<in> set xs \<Longrightarrow> P x (g x)) \<Longrightarrow> list_all2 P xs (map g xs)"
  by (induction xs) simp_all

lemma list_all2_same_set:
  "(\<And>x. x \<in> set xs \<Longrightarrow> P x x) \<Longrightarrow> list_all2 P xs xs"
  by (induction xs) simp_all

text \<open>
  C1, amended. Take a batch of \<open>N\<close> records that all pass the terminator filter, and a
  tokenizer that returns, for the fragments of the batch, list-valued fields with one
  non-empty token list per fragment. Then \<^verbatim>\<open>BatchTokenizer.__call__\<close> returns, and each
  field of the result holds exactly \<open>N\<close> merged sequences, the \<open>j\<close>-th of which has as
  many tokens as the fragments of record \<open>j\<close> have together (the end-of-sequence
  fragment included when it is appended) plus one for each fragment of that record
  whose word count is below the maximum and whose first token is not the
  end-of-sequence token.
\<close>

theorem batch_tokenizer_merge_counts:
  assumes "list_all passes_filter orig_batch"
    and "list_all (\<lambda>(k, v). list_field_ok (length (concat (map (record_fragments bt) orig_batch))) v)
           (encode_batch (bt_tokenizer bt) (concat (map (record_fragments bt) orig_batch)))"
  shows "\<exists>out. BatchTokenizer_call bt orig_batch = Inr out
           \<and> list_all2 (\<lambda>(k, v) (k', v'). k' = k \<and> field_counts_ok bt orig_batch v v')
               (encode_batch (bt_tokenizer bt) (concat (map (record_fragments bt) orig_batch))) out"
proof -
  define flat where "flat = concat (map (record_fragments bt) orig_batch)"
  define ks where "ks = map (\<lambda>d. length (record_fragments bt d)) orig_batch"
  define nm where "nm = concat (map record_flags ks)"
  define wcs where "wcs = concat (map (record_word_counts bt) orig_batch)"
  define enc where "enc = encode_batch (bt_tokenizer bt) flat"
  define eos where "eos = bt_eos_token_id bt"
  define mx where "mx = max_sentence_len bt"
  have loop: "for_each (call_step bt) orig_batch ([], [], []) = Inr (flat, nm, wcs)"
    using for_each_call_step_pass[OF assms(1), of bt "[]" "[]" "[]"]
    by (simp add: flat_def nm_def ks_def wcs_def comp_def)
  have pos: "list_all (\<lambda>k. 0 < k) ks"
    using assms(1) record_sentences_nonempty
    by (auto simp: ks_def list_all_iff record_fragments_def)
  have len_flat: "length flat = sum_list ks"
    by (simp add: flat_def ks_def length_concat_sum comp_def)
  have len_wcs: "length wcs = sum_list ks"
    by (simp add: wcs_def ks_def length_concat_sum length_record_word_counts comp_def)
  have len_nm: "length nm = sum_list ks"
    using pos unfolding nm_def by (induction ks) (simp_all add: length_record_flags)
  have ok: "list_all (\<lambda>(k, v). list_field_ok (length flat) v) enc"
    using assms(2) by (simp add: flat_def enc_def)
  show ?thesis
  proof (cases "orig_batch = []")
    case True
    then have e: "flat = []" "nm = []" by (simp_all add: flat_def nm_def ks_def)
    have call: "BatchTokenizer_call bt orig_batch = Inr enc"
      by (simp add: BatchTokenizer_call_def loop e(2) enc_def)
    have "list_all2 (\<lambda>(k, v) (k', v'). k' = k \<and> field_counts_ok bt orig_batch v v') enc enc"
    proof (rule list_all2_same_set)
      fix x assume "x \<in> set enc"
      then obtain k v where x: "x = (k, v)" and "list_field_ok 0 v"
        using ok e by (cases x) (auto simp: list_all_iff)
      then have "v = Lists []" by (cases v) auto
      then show "(case x of (k, v) \<Rightarrow> \<lambda>(k', v'). k' = k \<and> field_counts_ok bt orig_batch v v') x"
        using True by (simp add: x expected_counts_def)
    qed
    then show ?thesis using call by (auto simp: enc_def flat_def)
  next
    case False
    then obtain d ds where "orig_batch = d # ds" by (cases orig_batch) auto
    then have "ks \<noteq> []" by (simp add: ks_def)
    with pos have n0: "0 < sum_list ks" by (cases ks) auto
    have nm_ne: "nm \<noteq> []"
    proof
      assume "nm = []"
      then have "length nm = 0" by simp
      then show False using len_nm n0 by linarith
    qed
    have call: "BatchTokenizer_call bt orig_batch
                  = Inr (map (\<lambda>(k, v). (k, merged_lists nm wcs eos mx v)) enc)"
      using merge_split_encodings_lists[of "length flat" nm wcs enc eos mx] n0 len_flat len_nm len_wcs ok nm_ne
      by (simp add: BatchTokenizer_call_def loop enc_def[symmetric] eos_def mx_def)
    have "list_all2 (\<lambda>(k, v) (k', v'). k' = k \<and> field_counts_ok bt orig_batch v v') enc
            (map (\<lambda>(k, v). (k, merged_lists nm wcs eos mx v)) enc)"
    proof (rule list_all2_map_same)
      fix x assume "x \<in> set enc"
      then obtain k v where x: "x = (k, v)" and "list_field_ok (length flat) v"
        using ok by (cases x) (auto simp: list_all_iff)
      then obtain l where v: "v = Lists l" "length l = sum_list ks"
        using len_flat by (cases v) auto
      have "split_records (zip nm (map (annotate eos mx) (zip wcs l)))
              = chunks ks (map (annotate eos mx) (zip wcs l))"
        unfolding nm_def by (rule split_records_blocks[OF pos]) (simp add: len_wcs v(2))
      then have m: "merged_lists nm wcs eos mx (Lists l)
              = Lists (map (\<lambda>frs. concat (map (annotate eos mx) frs)) (chunks ks (zip wcs l)))"
        by (simp add: chunks_map comp_def)
      have e: "expected_counts bt orig_batch l
              = map (\<lambda>frs. length (concat (map (annotate eos mx) frs))) (chunks ks (zip wcs l))"
        by (simp add: expected_counts_def length_concat_annotate ks_def wcs_def eos_def mx_def)
      have "field_counts_ok bt orig_batch v (merged_lists nm wcs eos mx v)"
        unfolding v(1) m
        by (simp add: chunks_length e comp_def) (simp add: ks_def)
      then show "(case x of (k, v) \<Rightarrow> \<lambda>(k', v'). k' = k \<and> field_counts_ok bt orig_batch v v')
                   ((\<lambda>(k, v). (k, merged_lists nm wcs eos mx v)) x)"
        by (simp add: x)
    qed
    then show ?thesis using call by (auto simp: enc_def flat_def)
  qed
qed

theorem batch_tokenizer_merge_counts_witness:
  "\<exists>out. BatchTokenizer_call demo_bt [''Hi you. Yes!'', ''Go.''] = Inr out
     \<and> list_all2 (\<lambda>(k, v) (k', v'). k' = k \<and> field_counts_ok demo_bt [''Hi you. Yes!'', ''Go.''] v v')
          (encode_batch (bt_tokenizer demo_bt)
             (concat (map (record_fragments demo_bt) [''Hi you. Yes!'', ''Go.'']))) out"
proof -
  have h1: "list_all passes_filter [''Hi you. Yes!'', ''Go.'']"
    by code_simp
  have h2: "list_all (\<lambda>(k, v). list_field_ok
               (length (concat (map (record_fragments demo_bt) [''Hi you. Yes!'', ''Go.'']))) v)
             (encode_batch (bt_tokenizer demo_bt)
               (concat (map (record_fragments demo_bt) [''Hi you. Yes!'', ''Go.''])))"
    by code_simp
  show ?thesis by (rule batch_tokenizer_merge_counts[OF h1 h2])
qed

text \<open>
  C1 as stated fails: with a maximum of 2 the sentence \<^verbatim>\<open>" Hi you."\<close> has two words,
  which does not exceed the maximum, so the claim counts a boundary token for it and
  expects 16 tokens; the code adds none, its guard being \<^verbatim>\<open>wc[i] < max_sentence_len\<close>, and
  the merged record has 15.
\<close>

theorem merge_counts_counterexample:
  "list_all passes_filter [''Hi you. Yes!'']
   \<and> list_all (\<lambda>(k, v). list_field_ok 3 v)
         (encode_batch (bt_tokenizer demo_bt) ['' Hi you.'', '' Yes!'', ''<eos>''])
   \<and> BatchTokenizer_call (demo_bt\<lparr>max_sentence_len := 2\<rparr>) [''Hi you. Yes!'']
       = Inr [(''input_ids'',
               Lists [[32, 72, 105, 32, 121, 111, 117, 46, 2, 32, 89, 101, 115, 33, 0]])]
   \<and> length [32, 72, 105, 32, 121, 111, 117, 46, 2, 32, 89, 101, 115, 33, 0::int] = 15
   \<and> expected_counts_as_claimed (demo_bt\<lparr>max_sentence_len := 2\<rparr>) [''Hi you. Yes!'']
         [[32, 72, 105, 32, 121, 111, 117, 46], [32, 89, 101, 115, 33], [0]] = [16]"
  by code_simp

lemma demo_merge_counts_example:
  "BatchTokenizer_call demo_bt [''Hi you. Yes!'', ''Go.'']
     = Inr [(''input_ids'', Lists [[3, 32, 72, 105, 32, 121, 111, 117, 46, 2, 32, 89, 101, 115, 33, 0],
                                   [2, 32, 71, 111, 46, 0]])]"
  "expected_counts demo_bt [''Hi you. Yes!'', ''Go.'']
     [[32, 72, 105, 32, 121, 111, 117, 46], [32, 89, 101, 115, 33], [0], [32, 71, 111, 46], [0]] = [16, 6]"
  by code_simp+

text \<open>
  C3, amended. In the list branch of \<^verbatim>\<open>_merge_split_encodings\<close> (well-formed list-valued
  fields, a non-empty batch) every field is merged record by record, a record being a
  fragment and the fragments flagged \<open>True\<close> after it, and every fragment of a record
  is prefixed with the boundary token \<open>word_count + eos_token_id + 1\<close> except when its
  word count is greater than or equal to the maximum or its first token is the
  end-of-sequence token, in which case nothing is added.
\<close>

theorem merge_prefixes_boundary_tokens:
  assumes "0 < n" "length needs_merge = n" "length wc = n"
    and "list_all (\<lambda>(k, v). list_field_ok n v) encoding"
  shows "merge_split_encodings n encoding needs_merge wc eos_id max_len
           = Inr (map (\<lambda>(k, v). (k, merged_lists needs_merge wc eos_id max_len v)) encoding)
       \<and> (\<forall>w toks. annotate eos_id max_len (w, toks)
             = (if w < max_len \<and> hd toks \<noteq> eos_id then (w + eos_id + 1) # toks else toks))"
  using merge_split_encodings_lists[OF assms] by (simp add: annotate_def)

theorem merge_prefixes_boundary_tokens_witness:
  "merge_split_encodings 3 [(''input_ids'', Lists [[7, 8], [9], [0]])] [False, True, True] [2, 1024, 1] 0 1024
     = Inr [(''input_ids'', Lists [[3, 7, 8, 9, 0]])]"
  using merge_prefixes_boundary_tokens[of 3 "[False, True, True]" "[2, 1024, 1]" "[(''input_ids'', Lists [[7, 8], [9], [0]])]" 0 1024]
  by (simp add: annotate_def)

text \<open>
  C3 as stated fails: a fragment whose word count equals the maximum does not exceed
  it and gets no boundary token, and so does a fragment that starts with the
  end-of-sequence token without being that token alone.
\<close>

theorem merge_prefix_rule_counterexample:
  "merge_split_encodings 1 [(''input_ids'', Lists [[7, 8]])] [False] [1024] 0 1024
     = Inr [(''input_ids'', Lists [[7, 8]])]
   \<and> annotate_as_claimed 0 1024 (1024, [7, 8]) = [1025, 7, 8]
   \<and> merge_split_encodings 1 [(''input_ids'', Lists [[0, 5]])] [False] [2] 0 1024
     = Inr [(''input_ids'', Lists [[0, 5]])]
   \<and> annotate_as_claimed 0 1024 (2, [0, 5]) = [3, 0, 5]"
  by code_simp

section \<open>The example record\<close>






section \<open>Records that do not end in a terminator\<close>

lemma set_py_replace2_swap: "set (py_replace2 a b b a s) = set s"
proof (induction s rule: length_induct)
  case (1 s)
  show ?case
  proof (cases s)
    case Nil
    then show ?thesis by simp
  next
    case (Cons x r)
    note s = Cons
    show ?thesis
    proof (cases r)
      case Nil
      then show ?thesis by (simp add: s)
    next
      case (Cons y r')
      have a: "set (py_replace2 a b b a r') = set r'" using 1 s Cons by simp
      have b: "set (py_replace2 a b b a (y # r')) = set (y # r')" using 1 s Cons by simp
      show ?thesis
      proof (cases "x = a \<and> y = b")
        case True
        then show ?thesis using a by (auto simp: s Cons)
      next
        case False
        then have "py_replace2 a b b a s = x # py_replace2 a b b a (y # r')"
          by (auto simp: s Cons)
        then show ?thesis using b by (simp add: s Cons)
      qed
    qed
  qed
qed

lemma set_normalize_quotes: "set (normalize_quotes s) = set s"
  by (simp add: normalize_quotes_def set_py_replace2_swap)

lemma nonspace_normalize_quotes: "nonspace (normalize_quotes s) = [] \<longleftrightarrow> nonspace s = []"
  by (simp add: nonspace_def filter_empty_conv set_normalize_quotes)

lemma split_acc_nonspace_empty: "nonspace s = [] \<Longrightarrow> split_acc [] s = []"
  by (rule split_acc_all_space) (simp add: nonspace_def filter_empty_conv list_all_iff)

lemma split_acc_last:
  assumes "list_all (\<lambda>c. \<not> is_space c) w" "nonspace (rev w @ s) \<noteq> []"
  shows "split_acc w s \<noteq> [] \<and> last (last (split_acc w s)) = last (nonspace (rev w @ s))"
  using assms
proof (induction s arbitrary: w)
  case Nil
  then have "nonspace (rev w) = rev w"
    by (simp add: nonspace_def list_all_iff)
  then show ?case using Nil by auto
next
  case (Cons c cs)
  have w: "nonspace (rev w) = rev w"
    using Cons.prems(1) by (simp add: nonspace_def list_all_iff)
  show ?case
  proof (cases "is_space c")
    case False
    then show ?thesis using Cons.IH[of "c # w"] Cons.prems by simp
  next
    case True
    then have ns: "nonspace (rev w @ c # cs) = rev w @ nonspace cs"
      using w by (simp add: nonspace_def)
    show ?thesis
    proof (cases "nonspace cs = []")
      case True
      then have "split_acc [] cs = []" by (rule split_acc_nonspace_empty)
      moreover have "w \<noteq> []" using Cons.prems(2) ns True by auto
      ultimately show ?thesis using \<open>is_space c\<close> ns True by simp
    next
      case False
      then have "split_acc [] cs \<noteq> [] \<and> last (last (split_acc [] cs)) = last (nonspace cs)"
        using Cons.IH[of "[]"] by simp
      then show ?thesis using \<open>is_space c\<close> ns False by simp
    qed
  qed
qed

lemma last_word_unterminated_nonspace:
  assumes "nonspace s \<noteq> []"
  shows "last_word_unterminated s = Inr (\<not> is_terminator (last (nonspace s)))"
proof -
  have "py_split s \<noteq> [] \<and> last (last (py_split s)) = last (nonspace s)"
    using split_acc_last[of "[]" s] assms by (simp add: py_split_def)
  then show ?thesis by (auto simp: last_word_unterminated_def split: list.splits)
qed

lemma should_skip_nonspace:
  assumes "nonspace s \<noteq> []"
  shows "should_skip s = Inr (\<not> is_terminator (last (nonspace s)))"
proof -
  have ne: "s \<noteq> []" using assms by (auto simp: nonspace_def)
  have second: "last_word_unterminated s = Inr (\<not> is_terminator (last (nonspace s)))"
    by (rule last_word_unterminated_nonspace[OF assms])
  show ?thesis
  proof (cases "last s = CHR 0x0A")
    case False
    then show ?thesis using ne second by (simp add: should_skip_def)
  next
    case True
    have "s = butlast s @ [last s]" using ne by simp
    then have "nonspace s = nonspace (butlast s) @ nonspace [last s]"
      unfolding nonspace_def by (metis filter_append)
    then have eq: "nonspace (butlast s) = nonspace s"
      using True by (simp add: nonspace_def is_space_def)
    then have "last_word_unterminated (butlast s) = Inr (\<not> is_terminator (last (nonspace s)))"
      using last_word_unterminated_nonspace[of "butlast s"] assms by simp
    then show ?thesis using ne second True
      by (cases "is_terminator (last (nonspace s))") (simp_all add: should_skip_def)
  qed
qed

lemma for_each_append:
  "for_each f (xs @ ys) s = (case for_each f xs s of Inl e \<Rightarrow> Inl e | Inr s' \<Rightarrow> for_each f ys s')"
proof (induction xs arbitrary: s)
  case Nil
  then show ?case by simp
next
  case (Cons x xs)
  then show ?case by (cases "f x s") simp_all
qed

text \<open>
  C7, amended. A record that has a non-whitespace character and whose last
  non-whitespace character, after the six replacements, is not one of \<^verbatim>\<open>.!?\<close> is dropped
  without an error: the pass of the loop leaves the state as it is, and the call
  returns (or raises) what it does on the batch without the record.
\<close>

theorem unterminated_record_dropped:
  assumes "nonspace d \<noteq> []"
    and "\<not> is_terminator (last (nonspace (normalize_quotes d)))"
  shows "call_step bt d st = Inr st
       \<and> BatchTokenizer_call bt (pre @ d # post) = BatchTokenizer_call bt (pre @ post)"
proof -
  have "nonspace (normalize_quotes d) \<noteq> []"
    using assms(1) by (simp add: nonspace_normalize_quotes)
  then have "should_skip (normalize_quotes d) = Inr True"
    using assms(2) by (simp add: should_skip_nonspace)
  then have step: "call_step bt d s = Inr s" for s
    by (cases s) (simp add: call_step_def)
  have "for_each (call_step bt) (pre @ d # post) s = for_each (call_step bt) (pre @ post) s" for s
    by (simp add: for_each_append step split: sum.splits)
  then show ?thesis by (simp add: step BatchTokenizer_call_def)
qed

theorem unterminated_record_dropped_witness:
  "call_step demo_bt ''No end'' ([], [], []) = Inr ([], [], [])
   \<and> BatchTokenizer_call demo_bt ([''Hi.''] @ ''No end'' # [''Go!''])
       = BatchTokenizer_call demo_bt ([''Hi.''] @ [''Go!''])"
proof -
  have h1: "nonspace ''No end'' \<noteq> []" by code_simp
  have h2: "\<not> is_terminator (last (nonspace (normalize_quotes ''No end'')))" by code_simp
  show ?thesis by (rule unterminated_record_dropped[OF h1 h2])
qed

text \<open>
  C7 as stated fails: a record that ends in a terminator followed by two spaces, and
  one that ends in a quotation mark after a terminator, do not end in a terminator or
  in a terminator and one newline, and both are kept; the empty record does not end in
  a terminator either, and the call raises \<^verbatim>\<open>IndexError\<close> on it.
\<close>

theorem unterminated_record_counterexample:
  "\<not> ends_in_terminator_as_claimed ''Hi.  ''
   \<and> BatchTokenizer_call demo_bt [''Hi.  ''] = Inr [(''input_ids'', Lists [[2, 32, 72, 105, 46, 0]])]
   \<and> \<not> ends_in_terminator_as_claimed (''Say '' @ [CHR 0x22] @ ''hi.'' @ [CHR 0x22])
   \<and> BatchTokenizer_call demo_bt [''Say '' @ [CHR 0x22] @ ''hi.'' @ [CHR 0x22]]
       = Inr [(''input_ids'', Lists [[3, 32, 83, 97, 121, 32, 34, 104, 105, 34, 46, 0]])]
   \<and> BatchTokenizer_call demo_bt [] = Inr [(''input_ids'', Lists [])]
   \<and> \<not> ends_in_terminator_as_claimed []
   \<and> BatchTokenizer_call demo_bt [[]] = Inl IndexError"
  by code_simp

end
